theory Spec2Isabelle
  imports Main
begin

section \<open>URL validator (frontend/src/utils/validateUrl.js)\<close>

text \<open>
  JavaScript strings are sequences of 16-bit code units; here a string is a list of
  natural numbers, so every JavaScript string is covered. The validator builds one
  regular expression, flag \<open>i\<close>, anchored by \<open>^\<close> and \<open>$\<close>, and returns
  \<open>!!pattern.test(url)\<close>. Every literal and class of the pattern is ASCII; with flag \<open>i\<close>
  and without flag \<open>u\<close> the canonical form of a code unit is its upper-case form, and a
  code unit from 128 on is never mapped into ASCII, so it matches no class of this
  pattern: \<open>canonicalize\<close> leaves it as it is. What \<open>test\<close> returns is modelled, not the
  time the backtracking of the engine takes.
\<close>

type_synonym code_unit = nat

definition cu :: "char \<Rightarrow> code_unit" where
  "cu c = of_char c"

type_synonym js_string = "code_unit list"

text \<open>A string literal of the source, as its code units.\<close>

definition js :: "string \<Rightarrow> js_string" where
  "js s = map cu s"

definition in_range :: "code_unit \<Rightarrow> code_unit \<Rightarrow> code_unit \<Rightarrow> bool" where
  "in_range lo hi u = (lo \<le> u \<and> u \<le> hi)"

definition canonicalize :: "code_unit \<Rightarrow> code_unit" where
  "canonicalize u = (if in_range (cu CHR ''a'') (cu CHR ''z'') u then u - 32 else u)"

datatype class_item = Single char | Span char char

text \<open>
  A code unit matches a class item under flag \<open>i\<close> when some member of the item has the
  same canonical form.
\<close>

fun item_matches :: "class_item \<Rightarrow> code_unit \<Rightarrow> bool" where
  "item_matches (Single a) u = (canonicalize (cu a) = canonicalize u)"
| "item_matches (Span lo hi) u = (\<exists>x \<in> {cu lo .. cu hi}. canonicalize x = canonicalize u)"

definition class_matches :: "class_item list \<Rightarrow> code_unit \<Rightarrow> bool" where
  "class_matches items u = list_ex (\<lambda>i. item_matches i u) items"

datatype regex =
  Void | Empty | Cls "class_item list" | Seq regex regex | Alt regex regex | Star regex

fun nullable :: "regex \<Rightarrow> bool" where
  "nullable Void = False"
| "nullable Empty = True"
| "nullable (Cls items) = False"
| "nullable (Seq r s) = (nullable r \<and> nullable s)"
| "nullable (Alt r s) = (nullable r \<or> nullable s)"
| "nullable (Star r) = True"

definition seq :: "regex \<Rightarrow> regex \<Rightarrow> regex" where
  "seq r s = (if r = Void \<or> s = Void then Void else if r = Empty then s else Seq r s)"

definition alt :: "regex \<Rightarrow> regex \<Rightarrow> regex" where
  "alt r s = (if r = Void then s else if s = Void then r else if r = s then r else Alt r s)"

text \<open>What is left to match after reading one code unit.\<close>

fun deriv :: "code_unit \<Rightarrow> regex \<Rightarrow> regex" where
  "deriv u Void = Void"
| "deriv u Empty = Void"
| "deriv u (Cls items) = (if class_matches items u then Empty else Void)"
| "deriv u (Seq r s) =
     (if nullable r then alt (seq (deriv u r) s) (deriv u s) else seq (deriv u r) s)"
| "deriv u (Alt r s) = alt (deriv u r) (deriv u s)"
| "deriv u (Star r) = seq (deriv u r) (Star r)"

text \<open>\<open>test\<close> on an anchored pattern: the whole input has to match.\<close>

fun matches :: "regex \<Rightarrow> code_unit list \<Rightarrow> bool" where
  "matches r [] = nullable r"
| "matches r (u # us) = matches (deriv u r) us"

text \<open>The quantifiers of the pattern: \<open>?\<close>, \<open>+\<close>, \<open>{n}\<close>, \<open>{m,n}\<close>, \<open>{m,}\<close>.\<close>

definition lit :: "char \<Rightarrow> regex" where
  "lit c = Cls [Single c]"

definition opt :: "regex \<Rightarrow> regex" where
  "opt r = Alt r Empty"

definition one_or_more :: "regex \<Rightarrow> regex" where
  "one_or_more r = Seq r (Star r)"

fun exactly :: "nat \<Rightarrow> regex \<Rightarrow> regex" where
  "exactly 0 r = Empty"
| "exactly (Suc n) r = Seq r (exactly n r)"

fun at_most :: "nat \<Rightarrow> regex \<Rightarrow> regex" where
  "at_most 0 r = Empty"
| "at_most (Suc n) r = opt (Seq r (at_most n r))"

definition between :: "nat \<Rightarrow> nat \<Rightarrow> regex \<Rightarrow> regex" where
  "between m n r = Seq (exactly m r) (at_most (n - m) r)"

definition at_least :: "nat \<Rightarrow> regex \<Rightarrow> regex" where
  "at_least m r = Seq (exactly m r) (Star r)"

abbreviation digit :: class_item where
  "digit \<equiv> Span CHR ''0'' CHR ''9''"

abbreviation a_z :: class_item where
  "a_z \<equiv> Span CHR ''a'' CHR ''z''"

text \<open>The pattern, group by group, in the order of the source.\<close>

definition protocol :: regex where
  "protocol = opt (Seq (lit CHR ''h'') (Seq (lit CHR ''t'') (Seq (lit CHR ''t'')
     (Seq (lit CHR ''p'') (Seq (opt (lit CHR ''s'')) (Seq (lit CHR '':'')
     (Seq (lit CHR ''/'') (lit CHR ''/''))))))))"

definition label :: regex where
  "label = Seq (Cls [a_z, digit])
             (Star (Seq (Star (Cls [a_z, digit, Single CHR ''-''])) (Cls [a_z, digit])))"

definition domain_name :: regex where
  "domain_name = Seq (one_or_more (Seq label (lit CHR ''.''))) (at_least 2 (Cls [a_z]))"

definition ip_address :: regex where
  "ip_address = Seq (exactly 3 (Seq (between 1 3 (Cls [digit])) (lit CHR ''.'')))
                    (between 1 3 (Cls [digit]))"

definition port :: regex where
  "port = opt (Seq (lit CHR '':'') (one_or_more (Cls [digit])))"

definition path :: regex where
  "path = Star (Seq (lit CHR ''/'')
     (Star (Cls [Single CHR ''-'', a_z, digit, Single CHR ''%'', Single CHR ''_'',
                 Single CHR ''.'', Single CHR ''~'', Single CHR ''+''])))"

definition query_string :: regex where
  "query_string = opt (Seq (lit CHR ''?'')
     (Star (Cls [Single CHR '';'', Single CHR ''&'', a_z, digit, Single CHR ''%'',
                 Single CHR ''_'', Single CHR ''.'', Single CHR ''~'', Single CHR ''+'',
                 Single CHR ''='', Single CHR ''-''])))"

definition fragment :: regex where
  "fragment = opt (Seq (lit CHR ''#'')
     (Star (Cls [Single CHR ''-'', a_z, digit, Single CHR ''_''])))"

definition pattern :: regex where
  "pattern = Seq protocol (Seq (Alt domain_name ip_address)
               (Seq port (Seq path (Seq query_string fragment))))"

definition validateUrl :: "js_string \<Rightarrow> bool" where
  "validateUrl url = matches pattern url"

section \<open>The language of the pattern\<close>

text \<open>
  The strings a regular expression matches, as sets: concatenation, iteration, and the
  language of each constructor.
\<close>

definition conc :: "code_unit list set \<Rightarrow> code_unit list set \<Rightarrow> code_unit list set" where
  "conc A B = {v @ w | v w. v \<in> A \<and> w \<in> B}"

inductive_set star :: "code_unit list set \<Rightarrow> code_unit list set" for A where
  star_nil: "[] \<in> star A"
| star_more: "v \<in> A \<Longrightarrow> w \<in> star A \<Longrightarrow> v @ w \<in> star A"

fun lang :: "regex \<Rightarrow> code_unit list set" where
  "lang Void = {}"
| "lang Empty = {[]}"
| "lang (Cls items) = {[u] | u. class_matches items u}"
| "lang (Seq r s) = conc (lang r) (lang s)"
| "lang (Alt r s) = lang r \<union> lang s"
| "lang (Star r) = star (lang r)"

text \<open>Reading one code unit off a language.\<close>

definition after :: "code_unit \<Rightarrow> code_unit list set \<Rightarrow> code_unit list set" where
  "after u A = {w. u # w \<in> A}"

text \<open>
  The strings the pattern accepts, said without the pattern (the amended claim C4): an
  optional scheme \<open>http://\<close> or \<open>https://\<close> in any case; a host that is a dotted name
  (labels of letters, digits and inner hyphens, each followed by a dot, then a top-level
  name of two or more letters) or a dotted quad (four groups of one to three digits,
  their value not bounded); an optional port, path, query and fragment over the character
  sets of the pattern.
\<close>

definition is_letter :: "code_unit \<Rightarrow> bool" where
  "is_letter u = (in_range (cu CHR ''a'') (cu CHR ''z'') u \<or> in_range (cu CHR ''A'') (cu CHR ''Z'') u)"

definition is_digit :: "code_unit \<Rightarrow> bool" where
  "is_digit u = in_range (cu CHR ''0'') (cu CHR ''9'') u"

definition is_alnum :: "code_unit \<Rightarrow> bool" where
  "is_alnum u = (is_letter u \<or> is_digit u)"

definition one_of :: "string \<Rightarrow> code_unit \<Rightarrow> bool" where
  "one_of cs u = (u \<in> cu ` set cs)"

definition path_char :: "code_unit \<Rightarrow> bool" where
  "path_char u = (is_alnum u \<or> one_of ''-%_.~+'' u)"

definition query_char :: "code_unit \<Rightarrow> bool" where
  "query_char u = (is_alnum u \<or> one_of '';&%_.~+=-'' u)"

definition fragment_char :: "code_unit \<Rightarrow> bool" where
  "fragment_char u = (is_alnum u \<or> one_of ''-_'' u)"

definition scheme_ok :: "code_unit list \<Rightarrow> bool" where
  "scheme_ok w = (w = [] \<or> map canonicalize w = map cu ''HTTP://''
                  \<or> map canonicalize w = map cu ''HTTPS://'')"

definition hostname_label :: "code_unit list \<Rightarrow> bool" where
  "hostname_label l = (l \<noteq> [] \<and> is_alnum (hd l) \<and> is_alnum (last l)
                       \<and> (\<forall>u \<in> set l. is_alnum u \<or> u = cu CHR ''-''))"

definition top_level :: "code_unit list \<Rightarrow> bool" where
  "top_level t = (2 \<le> length t \<and> (\<forall>u \<in> set t. is_letter u))"

definition dotted_name :: "code_unit list \<Rightarrow> bool" where
  "dotted_name h = (\<exists>ls t. ls \<noteq> [] \<and> (\<forall>l \<in> set ls. hostname_label l) \<and> top_level t
                      \<and> h = concat (map (\<lambda>l. l @ [cu CHR ''.'']) ls) @ t)"

definition octet :: "code_unit list \<Rightarrow> bool" where
  "octet d = (1 \<le> length d \<and> length d \<le> 3 \<and> (\<forall>u \<in> set d. is_digit u))"

definition dotted_quad :: "code_unit list \<Rightarrow> bool" where
  "dotted_quad h = (\<exists>a b c d. octet a \<and> octet b \<and> octet c \<and> octet d
                      \<and> h = a @ cu CHR ''.'' # b @ cu CHR ''.'' # c @ cu CHR ''.'' # d)"

definition port_ok :: "code_unit list \<Rightarrow> bool" where
  "port_ok p = (p = [] \<or> (\<exists>ds. ds \<noteq> [] \<and> (\<forall>u \<in> set ds. is_digit u) \<and> p = cu CHR '':'' # ds))"

definition path_ok :: "code_unit list \<Rightarrow> bool" where
  "path_ok p = ((p = [] \<or> hd p = cu CHR ''/'') \<and> (\<forall>u \<in> set p. u = cu CHR ''/'' \<or> path_char u))"

definition query_ok :: "code_unit list \<Rightarrow> bool" where
  "query_ok q = (q = [] \<or> (\<exists>cs. (\<forall>u \<in> set cs. query_char u) \<and> q = cu CHR ''?'' # cs))"

definition fragment_ok :: "code_unit list \<Rightarrow> bool" where
  "fragment_ok f = (f = [] \<or> (\<exists>cs. (\<forall>u \<in> set cs. fragment_char u) \<and> f = cu CHR ''#'' # cs))"

definition valid_seed :: "code_unit list \<Rightarrow> bool" where
  "valid_seed w = (\<exists>sch h po pa q f. w = sch @ h @ po @ pa @ q @ f \<and> scheme_ok sch
                     \<and> (dotted_name h \<or> dotted_quad h) \<and> port_ok po \<and> path_ok pa
                     \<and> query_ok q \<and> fragment_ok f)"

text \<open>What may follow the first character of a label.\<close>

definition label_tail :: "code_unit list \<Rightarrow> bool" where
  "label_tail w = ((w = [] \<or> is_alnum (last w)) \<and> (\<forall>u \<in> set w. is_alnum u \<or> u = cu CHR ''-''))"

text \<open>A colon directly followed by a slash occurs in the string.\<close>

fun colon_slash :: "code_unit list \<Rightarrow> bool" where
  "colon_slash (a # b # v) = ((a = 58 \<and> b = 47) \<or> colon_slash (b # v))"
| "colon_slash v = False"

text \<open>
  A valid seed in the words of the claim, for comparison: after an optional scheme
  \<open>http://\<close> or \<open>https://\<close>, the host runs up to the first of \<open>: / ? #\<close>; it is an IPv4
  address (four numbers of one to three digits, each at most 255) when it has the shape
  of a dotted quad, and dot-separated labels otherwise; the rest is an optional port,
  path, query and fragment.
\<close>

definition host_part :: "code_unit \<Rightarrow> bool" where
  "host_part u = (u \<notin> {cu CHR '':'', cu CHR ''/'', cu CHR ''?'', cu CHR ''#''})"

fun split_dots :: "code_unit list \<Rightarrow> code_unit list list" where
  "split_dots [] = [[]]"
| "split_dots (u # w) =
     (if u = cu CHR ''.'' then [] # split_dots w
      else (case split_dots w of [] \<Rightarrow> [[u]] | p # ps \<Rightarrow> (u # p) # ps))"

definition decimal :: "code_unit list \<Rightarrow> nat" where
  "decimal d = foldl (\<lambda>n u. 10 * n + (u - cu CHR ''0'')) 0 d"

definition ipv4_octet :: "code_unit list \<Rightarrow> bool" where
  "ipv4_octet d = (octet d \<and> decimal d \<le> 255)"

definition quad_shaped :: "code_unit list \<Rightarrow> bool" where
  "quad_shaped h = (length (split_dots h) = 4
                    \<and> (\<forall>p \<in> set (split_dots h). p \<noteq> [] \<and> (\<forall>u \<in> set p. is_digit u)))"

definition claimed_host :: "code_unit list \<Rightarrow> bool" where
  "claimed_host h = (if quad_shaped h then (\<forall>p \<in> set (split_dots h). ipv4_octet p)
                     else (\<forall>p \<in> set (split_dots h). hostname_label p))"

definition strip_scheme :: "code_unit list \<Rightarrow> code_unit list" where
  "strip_scheme w = (if map canonicalize (take 7 w) = js ''HTTP://'' then drop 7 w
                     else if map canonicalize (take 8 w) = js ''HTTPS://'' then drop 8 w
                     else w)"

definition tail_ok :: "code_unit list \<Rightarrow> bool" where
  "tail_ok t = (\<exists>po pa q f. t = po @ pa @ q @ f \<and> port_ok po \<and> path_ok pa
                  \<and> query_ok q \<and> fragment_ok f)"

definition claimed_seed :: "code_unit list \<Rightarrow> bool" where
  "claimed_seed w = (claimed_host (takeWhile host_part (strip_scheme w))
                     \<and> tail_ok (dropWhile host_part (strip_scheme w)))"

section \<open>JavaScript values, errors and HTTP outcomes\<close>

text \<open>
  A parsed JSON body and the values held in React state. \<open>JUndefined\<close> is what reading
  an absent property gives.
\<close>

datatype jsval =
  JUndefined | JNull | JBool bool | JNum int | JStr string
  | JArr "jsval list" | JObj "(string \<times> jsval) list"

datatype js_error = Error string | TypeError string | SyntaxError string

fun message :: "js_error \<Rightarrow> string" where
  "message (Error m) = m"
| "message (TypeError m) = m"
| "message (SyntaxError m) = m"

text \<open>
  Property read \<open>data.k\<close>, for the three keys the application reads (\<open>task_id\<close>,
  \<open>status\<close>, \<open>crawled_data\<close>; none of them is defined on a prototype). Reading a
  property of \<open>null\<close> or \<open>undefined\<close> throws a TypeError, whose text is the engine's.
\<close>

fun get_prop :: "jsval \<Rightarrow> string \<Rightarrow> js_error + jsval" where
  "get_prop JUndefined k =
     Inl (TypeError (''Cannot read properties of undefined (reading ''
                     @ [CHR 0x27] @ k @ [CHR 0x27] @ '')''))"
| "get_prop JNull k =
     Inl (TypeError (''Cannot read properties of null (reading ''
                     @ [CHR 0x27] @ k @ [CHR 0x27] @ '')''))"
| "get_prop (JObj kvs) k = Inr (case map_of kvs k of Some v \<Rightarrow> v | None \<Rightarrow> JUndefined)"
| "get_prop v k = Inr JUndefined"

text \<open>
  What one \<open>fetch\<close> call settles to: a rejection (a TypeError with the browser's text),
  or a response with its status and what \<open>response.json()\<close> settles to (\<open>Inl\<close>: the body
  is not JSON, a SyntaxError with the engine's text).
\<close>

record response =
  status :: nat
  json :: "string + jsval"

datatype fetch_outcome = NetworkFailure string | Responded response

definition ok :: "response \<Rightarrow> bool" where
  "ok r = (200 \<le> status r \<and> status r \<le> 299)"

definition digit_char :: "nat \<Rightarrow> char" where
  "digit_char d = char_of (48 + d)"

fun show_nat :: "nat \<Rightarrow> string" where
  "show_nat n = (if n < 10 then [digit_char n] else show_nat (n div 10) @ [digit_char (n mod 10)])"

declare show_nat.simps [simp del]

section \<open>Task client (frontend/src/services/crawlService.js)\<close>

text \<open>
  Each service function makes one \<open>fetch\<close> call and then maps what it settles to. The
  call itself is a \<open>request\<close>; the mapping is a function of the one outcome.
\<close>

datatype request = PostStartCrawl js_string | GetTaskStatus jsval

definition startCrawlService :: "fetch_outcome \<Rightarrow> js_error + jsval" where
  "startCrawlService out =
     (case out of
        NetworkFailure m \<Rightarrow> Inl (TypeError m)
      | Responded r \<Rightarrow>
          if \<not> ok r then Inl (Error (''HTTP error! status: '' @ show_nat (status r)))
          else (case json r of Inl m \<Rightarrow> Inl (SyntaxError m) | Inr v \<Rightarrow> Inr v))"

definition checkTaskStatusService :: "fetch_outcome \<Rightarrow> js_error + jsval" where
  "checkTaskStatusService out =
     (case out of
        NetworkFailure m \<Rightarrow> Inl (TypeError m)
      | Responded r \<Rightarrow>
          if \<not> ok r then
            (if status r = 404 then Inl (Error ''Task not found.'')
             else Inl (Error (''HTTP error! status: '' @ show_nat (status r))))
          else (case json r of Inl m \<Rightarrow> Inl (SyntaxError m) | Inr v \<Rightarrow> Inr v))"

section \<open>The App component (frontend/src/App.js)\<close>

text \<open>
  The seven \<open>useState\<close> cells, and what the runtime holds for the component: the
  intervals registered by \<open>setInterval\<close> and not cleared, the \<open>fetch\<close> calls not yet
  settled with the code that awaits each, and the log of all \<open>fetch\<close> calls made.
\<close>

record timer =
  timer_id :: nat
  delay_ms :: nat
  task_arg :: jsval

datatype continuation = AwaitSubmit | AwaitPoll nat

datatype issuer = ByStartCrawl | ByTimer nat

record app =
  startUrl :: js_string
  taskId :: jsval
  taskStatus :: jsval
  crawledData :: jsval
  loading :: bool
  isUrlValid :: bool
  errorMessage :: string
  timers :: "timer list"
  next_timer_id :: nat
  pending :: "(nat \<times> continuation) list"
  sent :: "(issuer \<times> request) list"

definition init :: app where
  "init = \<lparr> startUrl = [], taskId = JStr [], taskStatus = JStr [], crawledData = JObj [],
            loading = False, isUrlValid = True, errorMessage = [],
            timers = [], next_timer_id = 0, pending = [], sent = [] \<rparr>"

text \<open>A \<open>fetch\<close> call: logged, and pending under its position in the log.\<close>

definition issue :: "issuer \<Rightarrow> request \<Rightarrow> continuation \<Rightarrow> app \<Rightarrow> app" where
  "issue who rq k s =
     s\<lparr> pending := pending s @ [(length (sent s), k)], sent := sent s @ [(who, rq)] \<rparr>"

definition handleUrlChange :: "js_string \<Rightarrow> app \<Rightarrow> app" where
  "handleUrlChange v s = s\<lparr> startUrl := v, isUrlValid := True \<rparr>"

text \<open>\<open>startCrawl\<close> up to its \<open>await\<close>.\<close>

definition startCrawl :: "app \<Rightarrow> app" where
  "startCrawl s =
     (if \<not> validateUrl (startUrl s) then
        s\<lparr> isUrlValid := False, errorMessage := ''Invalid URL.'' \<rparr>
      else
        issue ByStartCrawl (PostStartCrawl (startUrl s)) AwaitSubmit
          (s\<lparr> loading := True, isUrlValid := True, errorMessage := [] \<rparr>))"

definition handleKeyPress :: "string \<Rightarrow> app \<Rightarrow> app" where
  "handleKeyPress key s =
     (if key = ''Enter'' then
        (if validateUrl (startUrl s) then startCrawl (s\<lparr> isUrlValid := True \<rparr>)
         else s\<lparr> isUrlValid := False \<rparr>)
      else s)"

text \<open>The button is disabled while loading, on an invalid URL and on an empty input.\<close>

definition button_disabled :: "app \<Rightarrow> bool" where
  "button_disabled s = (loading s \<or> \<not> isUrlValid s \<or> length (startUrl s) = 0)"

definition POLL_INTERVAL :: nat where
  "POLL_INTERVAL = 2000"

text \<open>\<open>checkTaskStatus\<close>: registers the interval; its callback is \<open>interval_callback\<close>.\<close>

definition checkTaskStatus :: "jsval \<Rightarrow> app \<Rightarrow> app" where
  "checkTaskStatus tid s =
     s\<lparr> timers := timers s @
            [\<lparr> timer_id = next_timer_id s, delay_ms = POLL_INTERVAL, task_arg = tid \<rparr>],
        next_timer_id := Suc (next_timer_id s) \<rparr>"

definition clearInterval :: "nat \<Rightarrow> app \<Rightarrow> app" where
  "clearInterval i s = s\<lparr> timers := filter (\<lambda>t. timer_id t \<noteq> i) (timers s) \<rparr>"

definition startCrawl_catch :: "js_error \<Rightarrow> app \<Rightarrow> app" where
  "startCrawl_catch e s =
     s\<lparr> errorMessage := ''Network error: '' @ message e, loading := False \<rparr>"

text \<open>\<open>startCrawl\<close> after its \<open>await\<close>.\<close>

definition startCrawl_resume :: "js_error + jsval \<Rightarrow> app \<Rightarrow> app" where
  "startCrawl_resume res s =
     (case res of
        Inl e \<Rightarrow> startCrawl_catch e s
      | Inr data \<Rightarrow>
          (case get_prop data ''task_id'' of
             Inl e \<Rightarrow> startCrawl_catch e s
           | Inr tid \<Rightarrow> checkTaskStatus tid (s\<lparr> taskId := tid \<rparr>)))"

definition interval_callback :: "timer \<Rightarrow> app \<Rightarrow> app" where
  "interval_callback t s =
     issue (ByTimer (timer_id t)) (GetTaskStatus (task_arg t)) (AwaitPoll (timer_id t)) s"

definition poll_catch :: "nat \<Rightarrow> js_error \<Rightarrow> app \<Rightarrow> app" where
  "poll_catch i e s =
     (clearInterval i (s\<lparr> errorMessage := ''Network error: '' @ message e \<rparr>))
       \<lparr> loading := False \<rparr>"

text \<open>The interval's callback after its \<open>await\<close>; \<open>i\<close> is \<open>statusInterval\<close>.\<close>

definition poll_resume :: "nat \<Rightarrow> js_error + jsval \<Rightarrow> app \<Rightarrow> app" where
  "poll_resume i res s =
     (case res of
        Inl e \<Rightarrow> poll_catch i e s
      | Inr data \<Rightarrow>
          (case get_prop data ''status'' of
             Inl e \<Rightarrow> poll_catch i e s
           | Inr st \<Rightarrow>
               let s1 = s\<lparr> taskStatus := st \<rparr> in
               if st = JStr ''completed'' \<or> st = JStr ''failed'' then
                 let s2 = (clearInterval i s1)\<lparr> loading := False \<rparr> in
                 if st = JStr ''completed'' then
                   (case get_prop data ''crawled_data'' of
                      Inl e \<Rightarrow> poll_catch i e s2
                    | Inr d \<Rightarrow> s2\<lparr> crawledData := d \<rparr>)
                 else s2\<lparr> errorMessage := ''Task failed.'' \<rparr>
               else s1))"

text \<open>
  What can happen to the component: the user edits the input, presses a key in it or
  clicks the button; an interval fires; a \<open>fetch\<close> call settles.
\<close>

datatype event =
  Change js_string | KeyPress string | Click | Tick nat | Settle nat fetch_outcome

fun step :: "event \<Rightarrow> app \<Rightarrow> app" where
  "step (Change v) s = handleUrlChange v s"
| "step (KeyPress key) s = handleKeyPress key s"
| "step Click s = (if button_disabled s then s else startCrawl s)"
| "step (Tick i) s =
     (case find (\<lambda>t. timer_id t = i) (timers s) of
        None \<Rightarrow> s
      | Some t \<Rightarrow> interval_callback t s)"
| "step (Settle r out) s =
     (case map_of (pending s) r of
        None \<Rightarrow> s
      | Some k \<Rightarrow>
          let s' = s\<lparr> pending := filter (\<lambda>p. fst p \<noteq> r) (pending s) \<rparr> in
          (case k of
             AwaitSubmit \<Rightarrow> startCrawl_resume (startCrawlService out) s'
           | AwaitPoll i \<Rightarrow> poll_resume i (checkTaskStatusService out) s'))"

fun run :: "event list \<Rightarrow> app \<Rightarrow> app" where
  "run [] s = s"
| "run (e # es) s = run es (step e s)"

section \<open>Observations on a state\<close>

definition timer_ids :: "app \<Rightarrow> nat set" where
  "timer_ids s = timer_id ` set (timers s)"




text \<open>
  A start call is a click or the Enter key. \<open>starts_when_idle\<close>: every start call of the
  events is made with no interval registered and no call pending.
\<close>

definition is_start :: "event \<Rightarrow> bool" where
  "is_start ev = (ev = Click \<or> ev = KeyPress ''Enter'')"

fun starts_when_idle :: "event list \<Rightarrow> app \<Rightarrow> bool" where
  "starts_when_idle [] s = True"
| "starts_when_idle (ev # evs) s =
     ((is_start ev \<longrightarrow> timers s = [] \<and> pending s = []) \<and> starts_when_idle evs (step ev s))"

definition submits_pending :: "app \<Rightarrow> nat" where
  "submits_pending s = length (filter (\<lambda>p. snd p = AwaitSubmit) (pending s))"

definition loops :: "app \<Rightarrow> nat" where
  "loops s = length (timers s) + submits_pending s"

section \<open>Scenarios\<close>

definition ok_json :: "jsval \<Rightarrow> fetch_outcome" where
  "ok_json v = Responded \<lparr> status = 200, json = Inr v \<rparr>"

definition example_result :: jsval where
  "example_result = JObj [(''https://example.com'', JArr [JStr ''https://example.com/about''])]"

text \<open>Scenario A: submit gives \<open>t1\<close>, two polls in progress, the third completed.\<close>

definition scenario_A :: "event list" where
  "scenario_A =
    [Change (js ''https://example.com''), Click,
     Settle 0 (ok_json (JObj [(''task_id'', JStr ''t1'')])),
     Tick 0, Settle 1 (ok_json (JObj [(''status'', JStr ''in_progress'')])),
     Tick 0, Settle 2 (ok_json (JObj [(''status'', JStr ''in_progress'')])),
     Tick 0, Settle 3 (ok_json (JObj [(''status'', JStr ''completed''),
                                      (''crawled_data'', example_result)]))]"

text \<open>A submit in flight; task \<open>t1\<close> with its first status fetch in flight.\<close>

definition submit_pending :: app where
  "submit_pending = run [Change (js ''https://example.com''), Click] init"

definition polling_t1 :: app where
  "polling_t1 = run [Change (js ''https://example.com''), Click,
                     Settle 0 (ok_json (JObj [(''task_id'', JStr ''t1'')])), Tick 0] init"


text \<open>After Scenario A, a second task \<open>t2\<close> with its first status fetch in flight.\<close>

definition second_lifecycle :: "event list" where
  "second_lifecycle =
     scenario_A @ [Click, Settle 4 (ok_json (JObj [(''task_id'', JStr ''t2'')])), Tick 1]"

text \<open>
  A fresh start after Scenario A; the submit response of the README; a start by the Enter
  key while task \<open>t3\<close> is polling (Scenario D), and the result of the fetch made for \<open>t3\<close>.
\<close>

definition restart_after_A :: "event list" where
  "restart_after_A = scenario_A @ [Change (js ''https://other.com''), Click]"

definition documented_submit :: "event list" where
  "documented_submit =
     [Change (js ''https://example.com''), Click,
      Settle 0 (ok_json (JObj [(''taskId'', JStr ''12345''), (''status'', JStr ''initiated''),
                               (''startUrl'', JStr ''https://example.com'')])),
      Tick 0]"

definition superseded :: "event list" where
  "superseded =
     [Change (js ''https://example.com''), Click,
      Settle 0 (ok_json (JObj [(''task_id'', JStr ''t3'')])), Tick 0,
      Change (js ''https://other.com''), KeyPress ''Enter'',
      Settle 2 (ok_json (JObj [(''task_id'', JStr ''t4'')]))]"

definition stale_result :: fetch_outcome where
  "stale_result = ok_json (JObj [(''status'', JStr ''completed''),
                                 (''crawled_data'', example_result)])"

text \<open>What happens without the user: an interval fires, a call settles.\<close>

fun automatic :: "event \<Rightarrow> bool" where
  "automatic (Tick i) = True"
| "automatic (Settle r out) = True"
| "automatic ev = False"


definition completed_result :: fetch_outcome where
  "completed_result = ok_json (JObj [(''status'', JStr ''completed''),
                                     (''crawled_data'', example_result)])"

definition failed_result :: fetch_outcome where
  "failed_result = ok_json (JObj [(''status'', JStr ''failed'')])"

definition in_progress_result :: fetch_outcome where
  "in_progress_result = ok_json (JObj [(''status'', JStr ''in_progress'')])"

section \<open>Evaluating the validator\<close>

lemma cu_simps:
  "cu CHR ''a'' = 97" "cu CHR ''z'' = 122" "cu CHR ''0'' = 48" "cu CHR ''9'' = 57"
  by (simp_all add: cu_def)

lemma canonicalize_eq_iff:
  "canonicalize x = canonicalize u \<longleftrightarrow>
     x = u \<or> (in_range 97 122 u \<and> x = u - 32) \<or> (in_range 65 90 u \<and> x = u + 32)"
  by (auto simp: canonicalize_def in_range_def cu_simps)

lemma item_matches_Span:
  "item_matches (Span lo hi) u \<longleftrightarrow>
     in_range (cu lo) (cu hi) u
     \<or> (in_range 97 122 u \<and> in_range (cu lo) (cu hi) (u - 32))
     \<or> (in_range 65 90 u \<and> in_range (cu lo) (cu hi) (u + 32))"
  by (auto simp: canonicalize_eq_iff in_range_def)

lemma item_matches_Single:
  "item_matches (Single a) u \<longleftrightarrow>
     cu a = u \<or> (in_range 97 122 u \<and> cu a = u - 32) \<or> (in_range 65 90 u \<and> cu a = u + 32)"
  by (simp add: canonicalize_eq_iff)

lemma exactly_unfold:
  "exactly 3 r = Seq r (Seq r (Seq r Empty))"
  "exactly 2 r = Seq r (Seq r Empty)"
  "exactly 1 r = Seq r Empty"
  by (simp_all add: numeral_3_eq_3 numeral_2_eq_2)

lemma at_most_unfold: "at_most 2 r = opt (Seq r (opt (Seq r Empty)))"
  by (simp add: numeral_2_eq_2)

lemmas validate_eval =
  js_def validateUrl_def pattern_def protocol_def label_def domain_name_def ip_address_def port_def
  path_def query_string_def fragment_def lit_def opt_def one_or_more_def between_def
  at_least_def exactly_unfold at_most_unfold seq_def alt_def class_matches_def
  item_matches_Span item_matches_Single cu_def in_range_def

lemma valid_example: "validateUrl (js ''https://example.com'')"
  by (simp add: validate_eval del: item_matches.simps)

lemma valid_other: "validateUrl (js ''https://other.com'')"
  by (simp add: validate_eval del: item_matches.simps)

lemma invalid_not_a_url: "\<not> validateUrl (js ''not a url'')"
  by (simp add: validate_eval del: item_matches.simps)

section \<open>The validator accepts the valid seeds\<close>

lemma conc_iff: "w \<in> conc A B \<longleftrightarrow> (\<exists>v v'. w = v @ v' \<and> v \<in> A \<and> v' \<in> B)"
  by (auto simp: conc_def)

lemma nil_in_conc: "[] \<in> conc A B \<longleftrightarrow> [] \<in> A \<and> [] \<in> B"
  by (auto simp: conc_def)

lemma nullable_lang: "nullable r \<longleftrightarrow> [] \<in> lang r"
  by (induction r) (auto simp: nil_in_conc intro: star.star_nil)

lemma lang_seq: "lang (seq r s) = conc (lang r) (lang s)"
  by (auto simp: seq_def conc_def)

lemma lang_alt: "lang (alt r s) = lang r \<union> lang s"
  by (auto simp: alt_def)

lemma after_conc:
  "after u (conc A B) = conc (after u A) B \<union> (if [] \<in> A then after u B else {})"
proof -
  have "u # w \<in> conc A B \<longleftrightarrow>
          (\<exists>v v'. w = v @ v' \<and> u # v \<in> A \<and> v' \<in> B) \<or> ([] \<in> A \<and> u # w \<in> B)" for w
    unfolding conc_iff by (auto simp: Cons_eq_append_conv)
  then have "w \<in> after u (conc A B) \<longleftrightarrow>
          w \<in> conc (after u A) B \<union> (if [] \<in> A then after u B else {})" for w
    by (simp add: after_def conc_iff)
  then show ?thesis by blast
qed

lemma star_cons:
  assumes "w \<in> star A" and "w = u # x"
  shows "\<exists>v v'. x = v @ v' \<and> u # v \<in> A \<and> v' \<in> star A"
  using assms
proof (induction arbitrary: x rule: star.induct)
  case star_nil then show ?case by simp
next
  case (star_more v w)
  show ?case
  proof (cases v)
    case Nil then show ?thesis using star_more by simp
  next
    case (Cons a v')
    then have "x = v' @ w" "u # v' \<in> A" using star_more.prems star_more.hyps(1) by auto
    then show ?thesis using star_more.hyps(2) by blast
  qed
qed

lemma after_star: "after u (star A) = conc (after u A) (star A)"
proof
  show "after u (star A) \<subseteq> conc (after u A) (star A)"
    using star_cons by (fastforce simp: after_def conc_iff)
next
  show "conc (after u A) (star A) \<subseteq> after u (star A)"
  proof
    fix w assume "w \<in> conc (after u A) (star A)"
    then obtain v v' where "w = v @ v'" "u # v \<in> A" "v' \<in> star A"
      by (auto simp: conc_iff after_def)
    then have "(u # v) @ v' \<in> star A" by (intro star.star_more)
    then show "w \<in> after u (star A)" using \<open>w = v @ v'\<close> by (simp add: after_def)
  qed
qed

lemma lang_deriv: "lang (deriv u r) = after u (lang r)"
proof (induction r)
  case (Seq r s)
  then show ?case by (simp add: lang_alt lang_seq after_conc nullable_lang)
next
  case (Star r)
  then show ?case by (simp add: lang_seq after_star)
qed (auto simp: after_def lang_alt)

lemma matches_lang: "matches r w \<longleftrightarrow> w \<in> lang r"
  by (induction w arbitrary: r) (simp_all add: nullable_lang lang_deriv after_def)

lemma item_a_z: "item_matches a_z u \<longleftrightarrow> is_letter u"
  by (simp add: item_matches_Span is_letter_def cu_def in_range_def del: item_matches.simps) arith

lemma item_digit: "item_matches digit u \<longleftrightarrow> is_digit u"
  by (simp add: item_matches_Span is_digit_def cu_def in_range_def del: item_matches.simps) arith

lemma item_plain:
  assumes "\<not> in_range 65 90 (cu c)" and "\<not> in_range 97 122 (cu c)"
  shows "item_matches (Single c) u \<longleftrightarrow> u = cu c"
  using assms by (simp add: item_matches_Single in_range_def del: item_matches.simps) arith

lemma plain_chars:
  "item_matches (Single CHR ''-'') u \<longleftrightarrow> u = cu CHR ''-''"
  "item_matches (Single CHR ''%'') u \<longleftrightarrow> u = cu CHR ''%''"
  "item_matches (Single CHR ''_'') u \<longleftrightarrow> u = cu CHR ''_''"
  "item_matches (Single CHR ''.'') u \<longleftrightarrow> u = cu CHR ''.''"
  "item_matches (Single CHR ''~'') u \<longleftrightarrow> u = cu CHR ''~''"
  "item_matches (Single CHR ''+'') u \<longleftrightarrow> u = cu CHR ''+''"
  "item_matches (Single CHR '';'') u \<longleftrightarrow> u = cu CHR '';''"
  "item_matches (Single CHR ''&'') u \<longleftrightarrow> u = cu CHR ''&''"
  "item_matches (Single CHR ''='') u \<longleftrightarrow> u = cu CHR ''=''"
  "item_matches (Single CHR '':'') u \<longleftrightarrow> u = cu CHR '':''"
  "item_matches (Single CHR ''/'') u \<longleftrightarrow> u = cu CHR ''/''"
  "item_matches (Single CHR ''?'') u \<longleftrightarrow> u = cu CHR ''?''"
  "item_matches (Single CHR ''#'') u \<longleftrightarrow> u = cu CHR ''#''"
  by (rule item_plain; simp add: cu_def in_range_def)+

lemmas class_eval = class_matches_def item_a_z item_digit plain_chars is_alnum_def one_of_def

lemma class_letter: "class_matches [a_z] u \<longleftrightarrow> is_letter u"
  by (simp add: class_eval del: item_matches.simps)

lemma class_digit: "class_matches [digit] u \<longleftrightarrow> is_digit u"
  by (simp add: class_eval del: item_matches.simps)

lemma class_alnum: "class_matches [a_z, digit] u \<longleftrightarrow> is_alnum u"
  by (simp add: class_eval del: item_matches.simps)

lemma class_label: "class_matches [a_z, digit, Single CHR ''-''] u \<longleftrightarrow> is_alnum u \<or> u = cu CHR ''-''"
  by (simp add: class_eval del: item_matches.simps)

lemma class_path:
  "class_matches [Single CHR ''-'', a_z, digit, Single CHR ''%'', Single CHR ''_'',
                  Single CHR ''.'', Single CHR ''~'', Single CHR ''+''] u \<longleftrightarrow> path_char u"
  by (auto simp: path_char_def class_eval simp del: item_matches.simps)

lemma class_query:
  "class_matches [Single CHR '';'', Single CHR ''&'', a_z, digit, Single CHR ''%'',
                 Single CHR ''_'', Single CHR ''.'', Single CHR ''~'', Single CHR ''+'',
                 Single CHR ''='', Single CHR ''-''] u \<longleftrightarrow> query_char u"
  by (auto simp: query_char_def class_eval simp del: item_matches.simps)

lemma class_fragment:
  "class_matches [Single CHR ''-'', a_z, digit, Single CHR ''_''] u \<longleftrightarrow> fragment_char u"
  by (auto simp: fragment_char_def class_eval simp del: item_matches.simps)

lemma class_plain:
  "class_matches [Single CHR '':''] u \<longleftrightarrow> u = cu CHR '':''"
  "class_matches [Single CHR ''/''] u \<longleftrightarrow> u = cu CHR ''/''"
  "class_matches [Single CHR ''.''] u \<longleftrightarrow> u = cu CHR ''.''"
  "class_matches [Single CHR ''?''] u \<longleftrightarrow> u = cu CHR ''?''"
  "class_matches [Single CHR ''#''] u \<longleftrightarrow> u = cu CHR ''#''"
  by (simp_all add: class_eval del: item_matches.simps)

lemma class_letter_lit:
  "class_matches [Single c] u \<longleftrightarrow> canonicalize (cu c) = canonicalize u"
  by (simp add: class_matches_def)

lemma in_lang_Empty: "w \<in> lang Empty \<longleftrightarrow> w = []"
  by simp

lemma in_lang_Cls: "w \<in> lang (Cls items) \<longleftrightarrow> (\<exists>u. w = [u] \<and> class_matches items u)"
  by auto

lemma in_lang_Seq: "w \<in> lang (Seq r s) \<longleftrightarrow> (\<exists>v v'. w = v @ v' \<and> v \<in> lang r \<and> v' \<in> lang s)"
  by (simp add: conc_iff)

lemma in_lang_Alt: "w \<in> lang (Alt r s) \<longleftrightarrow> w \<in> lang r \<or> w \<in> lang s"
  by simp

lemma in_lang_opt: "w \<in> lang (opt r) \<longleftrightarrow> w = [] \<or> w \<in> lang r"
  by (auto simp: opt_def)

lemma in_lang_Seq_Cls:
  "w \<in> lang (Seq (Cls items) s) \<longleftrightarrow> (\<exists>u v. w = u # v \<and> class_matches items u \<and> v \<in> lang s)"
proof
  assume "w \<in> lang (Seq (Cls items) s)"
  then obtain v v' where "w = v @ v'" "v \<in> lang (Cls items)" "v' \<in> lang s"
    by (auto simp: conc_iff)
  then show "\<exists>u v. w = u # v \<and> class_matches items u \<and> v \<in> lang s" by auto
next
  assume "\<exists>u v. w = u # v \<and> class_matches items u \<and> v \<in> lang s"
  then obtain u v where "w = [u] @ v" "[u] \<in> lang (Cls items)" "v \<in> lang s" by auto
  then show "w \<in> lang (Seq (Cls items) s)" unfolding in_lang_Seq by blast
qed

lemma in_lang_Seq_lit:
  "w \<in> lang (Seq (lit c) s) \<longleftrightarrow> (\<exists>u v. w = u # v \<and> class_matches [Single c] u \<and> v \<in> lang s)"
  unfolding lit_def by (rule in_lang_Seq_Cls)

lemma in_lang_lit: "w \<in> lang (lit c) \<longleftrightarrow> (\<exists>u. w = [u] \<and> class_matches [Single c] u)"
  unfolding lit_def by (rule in_lang_Cls)

lemma in_lang_Star_Cls:
  "w \<in> lang (Star (Cls items)) \<longleftrightarrow> (\<forall>u \<in> set w. class_matches items u)"
proof
  assume "w \<in> lang (Star (Cls items))"
  then have "w \<in> star (lang (Cls items))" by simp
  then show "\<forall>u \<in> set w. class_matches items u"
    by (induction rule: star.induct) auto
next
  assume "\<forall>u \<in> set w. class_matches items u"
  then have "w \<in> star (lang (Cls items))"
  proof (induction w)
    case Nil show ?case by (rule star.star_nil)
  next
    case (Cons u w)
    then have "[u] \<in> lang (Cls items)" "w \<in> star (lang (Cls items))" by simp_all
    then have "[u] @ w \<in> star (lang (Cls items))" by (rule star.star_more)
    then show ?case by simp
  qed
  then show "w \<in> lang (Star (Cls items))" by simp
qed

lemma star_concat: "w \<in> star A \<longleftrightarrow> (\<exists>ws. w = concat ws \<and> (\<forall>v \<in> set ws. v \<in> A))"
proof
  assume "w \<in> star A"
  then show "\<exists>ws. w = concat ws \<and> (\<forall>v \<in> set ws. v \<in> A)"
  proof (induction rule: star.induct)
    case star_nil
    have "[] = concat [] \<and> (\<forall>v \<in> set []. v \<in> A)" by simp
    then show ?case by blast
  next
    case (star_more v w)
    then obtain ws where "w = concat ws" "\<forall>v \<in> set ws. v \<in> A" by blast
    then have "v @ w = concat (v # ws) \<and> (\<forall>x \<in> set (v # ws). x \<in> A)"
      using star_more.hyps(1) by simp
    then show ?case by blast
  qed
next
  assume "\<exists>ws. w = concat ws \<and> (\<forall>v \<in> set ws. v \<in> A)"
  then obtain ws where "w = concat ws" "\<forall>v \<in> set ws. v \<in> A" by blast
  then show "w \<in> star A"
  proof (induction ws arbitrary: w)
    case Nil then show ?case by (simp add: star.star_nil)
  next
    case (Cons v ws)
    then have "v \<in> A" "concat ws \<in> star A" by simp_all
    then have "v @ concat ws \<in> star A" by (rule star.star_more)
    then show ?case using Cons.prems(1) by simp
  qed
qed

lemma in_lang_one_or_more_Cls:
  "w \<in> lang (one_or_more (Cls items)) \<longleftrightarrow> w \<noteq> [] \<and> (\<forall>u \<in> set w. class_matches items u)"
  unfolding one_or_more_def in_lang_Seq_Cls in_lang_Star_Cls by (cases w) auto

lemma lang_port: "w \<in> lang port \<longleftrightarrow> port_ok w"
  unfolding port_def in_lang_opt in_lang_Seq_lit in_lang_one_or_more_Cls port_ok_def
    class_plain class_digit
  by auto

lemma lang_query: "w \<in> lang query_string \<longleftrightarrow> query_ok w"
  unfolding query_string_def in_lang_opt in_lang_Seq_lit in_lang_Star_Cls query_ok_def
    class_plain class_query
  by auto

lemma lang_fragment: "w \<in> lang fragment \<longleftrightarrow> fragment_ok w"
  unfolding fragment_def in_lang_opt in_lang_Seq_lit in_lang_Star_Cls fragment_ok_def
    class_plain class_fragment
  by auto

lemma canonicalize_plain:
  assumes "\<not> in_range 65 90 v" and "\<not> in_range 97 122 v"
  shows "canonicalize u = v \<longleftrightarrow> u = v"
  using assms by (auto simp: canonicalize_def in_range_def cu_simps)

lemma canonicalize_upper:
  assumes "in_range 65 90 v"
  shows "canonicalize u = v \<longleftrightarrow> u = v \<or> u = v + 32"
  using assms by (auto simp: canonicalize_def in_range_def cu_simps)

lemma class_letter_lit_iff:
  "class_matches [Single CHR ''h''] u \<longleftrightarrow> canonicalize u = 72"
  "class_matches [Single CHR ''t''] u \<longleftrightarrow> canonicalize u = 84"
  "class_matches [Single CHR ''p''] u \<longleftrightarrow> canonicalize u = 80"
  "class_matches [Single CHR ''s''] u \<longleftrightarrow> canonicalize u = 83"
  by (auto simp: class_matches_def canonicalize_def in_range_def cu_def)

lemma canonicalize_punct:
  "canonicalize u = 58 \<longleftrightarrow> u = 58" "canonicalize u = 47 \<longleftrightarrow> u = 47"
  by (simp_all add: canonicalize_plain in_range_def)

lemma lang_protocol_tail:
  "v \<in> lang (Seq (lit CHR '':'') (Seq (lit CHR ''/'') (lit CHR ''/''))) \<longleftrightarrow> v = [58, 47, 47]"
  unfolding in_lang_Seq_lit in_lang_lit class_plain by (auto simp: cu_def)

lemma lang_protocol: "w \<in> lang protocol \<longleftrightarrow> scheme_ok w"
proof -
  have s: "v \<in> lang (Seq (opt (lit CHR ''s'')) (Seq (lit CHR '':'') (Seq (lit CHR ''/'') (lit CHR ''/''))))
        \<longleftrightarrow> v = [58, 47, 47] \<or> (\<exists>u. canonicalize u = 83 \<and> v = [u, 58, 47, 47])" for v
    unfolding in_lang_Seq [of v "opt (lit CHR ''s'')"] in_lang_opt in_lang_lit lang_protocol_tail
      class_letter_lit_iff
    by auto
  have "w \<in> lang protocol \<longleftrightarrow>
          w = [] \<or> (\<exists>a b c d v. w = a # b # c # d # v \<and> canonicalize a = 72 \<and> canonicalize b = 84
                    \<and> canonicalize c = 84 \<and> canonicalize d = 80
                    \<and> (v = [58, 47, 47] \<or> (\<exists>u. canonicalize u = 83 \<and> v = [u, 58, 47, 47])))"
    unfolding protocol_def in_lang_opt in_lang_Seq_lit s class_letter_lit_iff by auto
  also have "\<dots> \<longleftrightarrow> scheme_ok w"
    unfolding scheme_ok_def
    by (auto simp: cu_def canonicalize_punct map_eq_Cons_conv)
  finally show ?thesis .
qed

lemma concI: "v \<in> A \<Longrightarrow> w \<in> B \<Longrightarrow> v @ w \<in> conc A B"
  by (auto simp: conc_def)

lemma conc_nil_right: "conc A {[]} = A"
  by (auto simp: conc_def)

lemma lang_Seq_Empty: "lang (Seq r Empty) = lang r"
  by (simp add: conc_nil_right)

lemma lang_octet: "w \<in> lang (between 1 3 (Cls [digit])) \<longleftrightarrow> octet w"
proof -
  let ?d = "Cls [digit]"
  have "between 1 3 ?d = Seq (Seq ?d Empty) (opt (Seq ?d (opt (Seq ?d Empty))))"
    by (simp add: between_def exactly_unfold at_most_unfold)
  then have "w \<in> lang (between 1 3 ?d) \<longleftrightarrow> w \<in> lang (Seq ?d (opt (Seq ?d (opt ?d))))"
    by (simp add: opt_def conc_nil_right)
  also have "\<dots> \<longleftrightarrow> (\<exists>a. is_digit a \<and> (w = [a] \<or> (\<exists>b. is_digit b \<and> (w = [a, b]
              \<or> (\<exists>c. is_digit c \<and> w = [a, b, c])))))"
    unfolding in_lang_Seq_Cls in_lang_opt in_lang_Cls class_digit by blast
  also have "\<dots> \<longleftrightarrow> octet w"
  proof
    assume "\<exists>a. is_digit a \<and> (w = [a] \<or> (\<exists>b. is_digit b \<and> (w = [a, b]
              \<or> (\<exists>c. is_digit c \<and> w = [a, b, c]))))"
    then show "octet w" by (auto simp: octet_def)
  next
    assume o: "octet w"
    then obtain a v where w: "w = a # v" by (cases w) (auto simp: octet_def)
    show "\<exists>a. is_digit a \<and> (w = [a] \<or> (\<exists>b. is_digit b \<and> (w = [a, b]
              \<or> (\<exists>c. is_digit c \<and> w = [a, b, c]))))"
    proof (cases v)
      case Nil then show ?thesis using o w by (auto simp: octet_def)
    next
      case (Cons b v')
      show ?thesis
      proof (cases v')
        case Nil then show ?thesis using o w Cons by (auto simp: octet_def)
      next
        case (Cons c v'')
        then have "v'' = []" using o w \<open>v = b # v'\<close> by (simp add: octet_def)
        then show ?thesis using o w \<open>v = b # v'\<close> Cons by (auto simp: octet_def)
      qed
    qed
  qed
  finally show ?thesis .
qed

lemma lang_octet_dot:
  "w \<in> lang (Seq (between 1 3 (Cls [digit])) (lit CHR ''.'')) \<longleftrightarrow>
     (\<exists>a. octet a \<and> w = a @ [cu CHR ''.''])"
  unfolding in_lang_Seq lang_octet in_lang_lit class_plain by auto

lemma lang_ip_address: "w \<in> lang ip_address \<longleftrightarrow> dotted_quad w"
proof
  let ?x = "Seq (between 1 3 (Cls [digit])) (lit CHR ''.'')"
  define L where "L = lang ?x"
  define D where "D = lang (between 1 3 (Cls [digit]))"
  assume "w \<in> lang ip_address"
  then have "w \<in> conc (conc L (conc L (conc L {[]}))) D"
    by (simp only: ip_address_def exactly_unfold lang.simps L_def D_def)
  then obtain x1 x2 x3 d where w: "w = (x1 @ x2 @ x3) @ d"
      and x: "x1 \<in> L" "x2 \<in> L" "x3 \<in> L" and d: "d \<in> D"
    by (auto simp: conc_iff)
  from x obtain a b c where "octet a" "x1 = a @ [cu CHR ''.'']" "octet b" "x2 = b @ [cu CHR ''.'']"
      "octet c" "x3 = c @ [cu CHR ''.'']"
    unfolding L_def lang_octet_dot by blast
  then have "octet a \<and> octet b \<and> octet c \<and> octet d
      \<and> w = a @ cu CHR ''.'' # b @ cu CHR ''.'' # c @ cu CHR ''.'' # d"
    using w d unfolding D_def lang_octet by simp
  then show "dotted_quad w" unfolding dotted_quad_def by blast
next
  let ?x = "Seq (between 1 3 (Cls [digit])) (lit CHR ''.'')"
  assume "dotted_quad w"
  then obtain a b c d where o: "octet a" "octet b" "octet c" "octet d"
      and w: "w = a @ cu CHR ''.'' # b @ cu CHR ''.'' # c @ cu CHR ''.'' # d"
    unfolding dotted_quad_def by blast
  have x: "a @ [cu CHR ''.''] \<in> lang ?x" "b @ [cu CHR ''.''] \<in> lang ?x"
          "c @ [cu CHR ''.''] \<in> lang ?x"
    using o unfolding lang_octet_dot by blast+
  have "[] \<in> lang Empty" by simp
  with x(3) have "(c @ [cu CHR ''.'']) @ [] \<in> lang (Seq ?x Empty)"
    unfolding lang.simps(4) by (rule concI)
  with x(2) have "(b @ [cu CHR ''.'']) @ (c @ [cu CHR ''.'']) @ [] \<in> lang (Seq ?x (Seq ?x Empty))"
    unfolding lang.simps(4) by (rule concI)
  with x(1) have "(a @ [cu CHR ''.'']) @ (b @ [cu CHR ''.'']) @ (c @ [cu CHR ''.'']) @ []
      \<in> lang (Seq ?x (Seq ?x (Seq ?x Empty)))"
    unfolding lang.simps(4) by (rule concI)
  moreover have "d \<in> lang (between 1 3 (Cls [digit]))" using o(4) by (simp only: lang_octet)
  ultimately have "((a @ [cu CHR ''.'']) @ (b @ [cu CHR ''.'']) @ (c @ [cu CHR ''.'']) @ []) @ d
      \<in> lang ip_address"
    unfolding ip_address_def exactly_unfold lang.simps(4) by (rule concI)
  then show "w \<in> lang ip_address" using w by simp
qed

lemma lang_label_piece:
  "v \<in> lang (Seq (Star (Cls [a_z, digit, Single CHR ''-''])) (Cls [a_z, digit])) \<longleftrightarrow>
     v \<noteq> [] \<and> is_alnum (last v) \<and> (\<forall>u \<in> set (butlast v). is_alnum u \<or> u = cu CHR ''-'')"
proof -
  have "v \<in> lang (Seq (Star (Cls [a_z, digit, Single CHR ''-''])) (Cls [a_z, digit])) \<longleftrightarrow>
          (\<exists>x u. v = x @ [u] \<and> (\<forall>c \<in> set x. is_alnum c \<or> c = cu CHR ''-'') \<and> is_alnum u)"
    unfolding in_lang_Seq in_lang_Star_Cls in_lang_Cls class_label class_alnum by blast
  also have "\<dots> \<longleftrightarrow> v \<noteq> [] \<and> is_alnum (last v)
                \<and> (\<forall>u \<in> set (butlast v). is_alnum u \<or> u = cu CHR ''-'')"
  proof
    assume "\<exists>x u. v = x @ [u] \<and> (\<forall>c \<in> set x. is_alnum c \<or> c = cu CHR ''-'') \<and> is_alnum u"
    then show "v \<noteq> [] \<and> is_alnum (last v)
                \<and> (\<forall>u \<in> set (butlast v). is_alnum u \<or> u = cu CHR ''-'')" by auto
  next
    assume a: "v \<noteq> [] \<and> is_alnum (last v)
                \<and> (\<forall>u \<in> set (butlast v). is_alnum u \<or> u = cu CHR ''-'')"
    then have "v = butlast v @ [last v]" by simp
    with a show "\<exists>x u. v = x @ [u] \<and> (\<forall>c \<in> set x. is_alnum c \<or> c = cu CHR ''-'') \<and> is_alnum u"
      by blast
  qed
  finally show ?thesis .
qed

lemma star_label_pieces:
  "w \<in> lang (Star (Seq (Star (Cls [a_z, digit, Single CHR ''-''])) (Cls [a_z, digit]))) \<longleftrightarrow>
     label_tail w"
proof
  let ?p = "Seq (Star (Cls [a_z, digit, Single CHR ''-''])) (Cls [a_z, digit])"
  assume "w \<in> lang (Star ?p)"
  then have "w \<in> star (lang ?p)" by simp
  then show "label_tail w"
  proof (induction rule: star.induct)
    case star_nil show ?case by (simp add: label_tail_def)
  next
    case (star_more v w)
    from star_more.hyps(1) have v: "v \<noteq> []" "is_alnum (last v)"
        "\<forall>u \<in> set (butlast v). is_alnum u \<or> u = cu CHR ''-''"
      unfolding lang_label_piece by simp_all
    from v(1) obtain x c where "v = x @ [c]" by (cases v rule: rev_cases) auto
    with v have "\<forall>u \<in> set v. is_alnum u \<or> u = cu CHR ''-''" by auto
    then show ?case using star_more.IH v by (auto simp: label_tail_def last_append)
  qed
next
  let ?p = "Seq (Star (Cls [a_z, digit, Single CHR ''-''])) (Cls [a_z, digit])"
  assume t: "label_tail w"
  show "w \<in> lang (Star ?p)"
  proof (cases "w = []")
    case True then show ?thesis by (simp add: star.star_nil)
  next
    case False
    then have "w \<in> lang ?p" using t unfolding lang_label_piece label_tail_def
      by (auto dest: in_set_butlastD)
    then have "w @ [] \<in> star (lang ?p)" by (intro star.star_more star.star_nil)
    then show ?thesis by simp
  qed
qed

lemma lang_label: "w \<in> lang label \<longleftrightarrow> hostname_label w"
proof -
  have "w \<in> lang label \<longleftrightarrow> (\<exists>u v. w = u # v \<and> is_alnum u \<and> label_tail v)"
    unfolding label_def in_lang_Seq_Cls star_label_pieces class_alnum ..
  also have "\<dots> \<longleftrightarrow> hostname_label w"
    by (cases w) (auto simp: hostname_label_def label_tail_def)
  finally show ?thesis .
qed

lemma conc_assoc: "conc (conc A B) C = conc A (conc B C)"
proof (intro set_eqI iffI)
  fix w assume "w \<in> conc (conc A B) C"
  then obtain a b c where w: "w = (a @ b) @ c" and m: "a \<in> A" "b \<in> B" "c \<in> C"
    by (auto simp: conc_iff)
  from m have "a @ (b @ c) \<in> conc A (conc B C)" by (intro concI)
  then show "w \<in> conc A (conc B C)" using w by simp
next
  fix w assume "w \<in> conc A (conc B C)"
  then obtain a b c where w: "w = a @ (b @ c)" and m: "a \<in> A" "b \<in> B" "c \<in> C"
    by (auto simp: conc_iff)
  from m have "(a @ b) @ c \<in> conc (conc A B) C" by (intro concI)
  then show "w \<in> conc (conc A B) C" using w by simp
qed

lemma lang_top_level: "w \<in> lang (at_least 2 (Cls [a_z])) \<longleftrightarrow> top_level w"
proof -
  have "at_least 2 (Cls [a_z]) = Seq (Seq (Cls [a_z]) (Seq (Cls [a_z]) Empty)) (Star (Cls [a_z]))"
    by (simp add: at_least_def exactly_unfold)
  then have "w \<in> lang (at_least 2 (Cls [a_z])) \<longleftrightarrow>
               w \<in> lang (Seq (Cls [a_z]) (Seq (Cls [a_z]) (Star (Cls [a_z]))))"
    by (simp add: conc_nil_right conc_assoc)
  also have "\<dots> \<longleftrightarrow> (\<exists>a b v. w = a # b # v \<and> is_letter a \<and> is_letter b \<and> (\<forall>u \<in> set v. is_letter u))"
    unfolding in_lang_Seq_Cls in_lang_Star_Cls class_letter by blast
  also have "\<dots> \<longleftrightarrow> top_level w"
  proof
    assume "\<exists>a b v. w = a # b # v \<and> is_letter a \<and> is_letter b \<and> (\<forall>u \<in> set v. is_letter u)"
    then show "top_level w" by (auto simp: top_level_def)
  next
    assume t: "top_level w"
    then obtain a b v where "w = a # b # v"
      by (cases w; cases "tl w") (auto simp: top_level_def)
    with t show "\<exists>a b v. w = a # b # v \<and> is_letter a \<and> is_letter b \<and> (\<forall>u \<in> set v. is_letter u)"
      by (auto simp: top_level_def)
  qed
  finally show ?thesis .
qed

lemma lang_label_dot:
  "v \<in> lang (Seq label (lit CHR ''.'')) \<longleftrightarrow> (\<exists>l. hostname_label l \<and> v = l @ [cu CHR ''.''])"
  unfolding in_lang_Seq lang_label in_lang_lit class_plain by auto

lemma all_label_dot:
  "(\<forall>v \<in> set ws. \<exists>l. hostname_label l \<and> v = l @ [cu CHR ''.'']) \<longleftrightarrow>
     (\<exists>ls. (\<forall>l \<in> set ls. hostname_label l) \<and> ws = map (\<lambda>l. l @ [cu CHR ''.'']) ls)"
proof
  assume "\<forall>v \<in> set ws. \<exists>l. hostname_label l \<and> v = l @ [cu CHR ''.'']"
  then show "\<exists>ls. (\<forall>l \<in> set ls. hostname_label l) \<and> ws = map (\<lambda>l. l @ [cu CHR ''.'']) ls"
  proof (induction ws)
    case Nil
    have "(\<forall>l \<in> set []. hostname_label l) \<and> [] = map (\<lambda>l. l @ [cu CHR ''.'']) []" by simp
    then show ?case by blast
  next
    case (Cons v ws)
    from Cons.prems obtain l where l: "hostname_label l" "v = l @ [cu CHR ''.'']" by auto
    from Cons.prems have "\<forall>v \<in> set ws. \<exists>l. hostname_label l \<and> v = l @ [cu CHR ''.'']" by simp
    from Cons.IH [OF this] obtain ls where "\<forall>l \<in> set ls. hostname_label l"
        "ws = map (\<lambda>l. l @ [cu CHR ''.'']) ls" by blast
    with l have "(\<forall>x \<in> set (l # ls). hostname_label x)
        \<and> v # ws = map (\<lambda>l. l @ [cu CHR ''.'']) (l # ls)" by simp
    then show ?case by (rule exI)
  qed
next
  assume "\<exists>ls. (\<forall>l \<in> set ls. hostname_label l) \<and> ws = map (\<lambda>l. l @ [cu CHR ''.'']) ls"
  then obtain ls where ls: "\<forall>l \<in> set ls. hostname_label l"
      and ws: "ws = map (\<lambda>l. l @ [cu CHR ''.'']) ls" by blast
  show "\<forall>v \<in> set ws. \<exists>l. hostname_label l \<and> v = l @ [cu CHR ''.'']"
  proof
    fix v assume "v \<in> set ws"
    then obtain l where "l \<in> set ls" "v = l @ [cu CHR ''.'']" unfolding ws by auto
    then show "\<exists>l. hostname_label l \<and> v = l @ [cu CHR ''.'']" using ls by blast
  qed
qed

lemma lang_labels:
  "w \<in> lang (one_or_more (Seq label (lit CHR ''.''))) \<longleftrightarrow>
     (\<exists>ls. ls \<noteq> [] \<and> (\<forall>l \<in> set ls. hostname_label l)
           \<and> w = concat (map (\<lambda>l. l @ [cu CHR ''.'']) ls))"
proof
  let ?x = "Seq label (lit CHR ''.'')"
  assume "w \<in> lang (one_or_more ?x)"
  then have "w \<in> conc (lang ?x) (star (lang ?x))" by (simp add: one_or_more_def)
  then obtain v v' where w: "w = v @ v'" and v: "v \<in> lang ?x" and v': "v' \<in> star (lang ?x)"
    unfolding conc_iff by (elim exE conjE)
  from v' have "\<exists>ws. v' = concat ws \<and> (\<forall>x \<in> set ws. x \<in> lang ?x)"
    unfolding star_concat .
  then obtain ws where ws: "v' = concat ws" and all: "\<forall>x \<in> set ws. x \<in> lang ?x"
    by (elim exE conjE)
  have "\<forall>x \<in> set (v # ws). \<exists>l. hostname_label l \<and> x = l @ [cu CHR ''.'']"
    using v all unfolding lang_label_dot by simp
  then have "\<exists>ls. (\<forall>l \<in> set ls. hostname_label l) \<and> v # ws = map (\<lambda>l. l @ [cu CHR ''.'']) ls"
    unfolding all_label_dot .
  then obtain ls where ls: "\<forall>l \<in> set ls. hostname_label l"
      and m: "v # ws = map (\<lambda>l. l @ [cu CHR ''.'']) ls"
    by (elim exE conjE)
  from m have ne: "ls \<noteq> []" by (cases ls) simp_all
  have "concat (map (\<lambda>l. l @ [cu CHR ''.'']) ls) = concat (v # ws)"
    by (simp only: m)
  then have "w = concat (map (\<lambda>l. l @ [cu CHR ''.'']) ls)"
    using w ws by simp
  with ne ls have "ls \<noteq> [] \<and> (\<forall>l \<in> set ls. hostname_label l)
           \<and> w = concat (map (\<lambda>l. l @ [cu CHR ''.'']) ls)" by (intro conjI)
  then show "\<exists>ls. ls \<noteq> [] \<and> (\<forall>l \<in> set ls. hostname_label l)
           \<and> w = concat (map (\<lambda>l. l @ [cu CHR ''.'']) ls)"
    by (rule exI)
next
  let ?x = "Seq label (lit CHR ''.'')"
  assume "\<exists>ls. ls \<noteq> [] \<and> (\<forall>l \<in> set ls. hostname_label l)
           \<and> w = concat (map (\<lambda>l. l @ [cu CHR ''.'']) ls)"
  then obtain ls where ne: "ls \<noteq> []" and h: "\<forall>l \<in> set ls. hostname_label l"
      and w: "w = concat (map (\<lambda>l. l @ [cu CHR ''.'']) ls)"
    by (elim exE conjE)
  from ne obtain l ls' where c: "ls = l # ls'" by (cases ls) simp_all
  have hl: "hostname_label l" and hs: "\<forall>l \<in> set ls'. hostname_label l"
    using h unfolding c by simp_all
  have "\<exists>k. hostname_label k \<and> l @ [cu CHR ''.''] = k @ [cu CHR ''.'']"
    using hl by (intro exI [of _ l]) simp
  then have a: "l @ [cu CHR ''.''] \<in> lang ?x" unfolding lang_label_dot .
  have "\<forall>v \<in> set (map (\<lambda>l. l @ [cu CHR ''.'']) ls'). v \<in> lang ?x"
  proof
    fix v assume "v \<in> set (map (\<lambda>l. l @ [cu CHR ''.'']) ls')"
    then obtain k where "k \<in> set ls'" "v = k @ [cu CHR ''.'']" by auto
    then have "\<exists>k. hostname_label k \<and> v = k @ [cu CHR ''.'']" using hs by (intro exI [of _ k]) simp
    then show "v \<in> lang ?x" unfolding lang_label_dot .
  qed
  then have "\<exists>ws. concat (map (\<lambda>l. l @ [cu CHR ''.'']) ls') = concat ws
                 \<and> (\<forall>v \<in> set ws. v \<in> lang ?x)"
    by (intro exI [of _ "map (\<lambda>l. l @ [cu CHR ''.'']) ls'"]) simp
  then have b: "concat (map (\<lambda>l. l @ [cu CHR ''.'']) ls') \<in> star (lang ?x)"
    unfolding star_concat .
  from a b have "(l @ [cu CHR ''.'']) @ concat (map (\<lambda>l. l @ [cu CHR ''.'']) ls')
      \<in> conc (lang ?x) (star (lang ?x))"
    by (rule concI)
  then show "w \<in> lang (one_or_more ?x)" using w c by (simp add: one_or_more_def)
qed

lemma lang_domain_name: "w \<in> lang domain_name \<longleftrightarrow> dotted_name w"
  unfolding domain_name_def in_lang_Seq lang_labels lang_top_level dotted_name_def by blast

lemma lang_segment:
  "v \<in> lang (Seq (lit CHR ''/'')
      (Star (Cls [Single CHR ''-'', a_z, digit, Single CHR ''%'', Single CHR ''_'',
                  Single CHR ''.'', Single CHR ''~'', Single CHR ''+'']))) \<longleftrightarrow>
     (\<exists>x. v = cu CHR ''/'' # x \<and> (\<forall>u \<in> set x. path_char u))"
  unfolding in_lang_Seq_lit in_lang_Star_Cls class_plain class_path by blast

lemma slash_path_in_star:
  assumes "\<forall>u \<in> set x. u = cu CHR ''/'' \<or> path_char u"
  shows "cu CHR ''/'' # x \<in> star {cu CHR ''/'' # s | s. \<forall>u \<in> set s. path_char u}"
  using assms
proof (induction x)
  case Nil
  have "[cu CHR ''/''] @ [] \<in> star {cu CHR ''/'' # s | s. \<forall>u \<in> set s. path_char u}"
    by (intro star.star_more star.star_nil) simp
  then show ?case by simp
next
  case (Cons c x)
  let ?S = "{cu CHR ''/'' # s | s. \<forall>u \<in> set s. path_char u}"
  from Cons have ih: "cu CHR ''/'' # x \<in> star ?S" by simp
  show ?case
  proof (cases "path_char c")
    case True
    from star_cons [OF ih refl] obtain v v' where x: "x = v @ v'"
        and v: "cu CHR ''/'' # v \<in> ?S" and v': "v' \<in> star ?S" by blast
    from v True have "cu CHR ''/'' # c # v \<in> ?S" by simp
    then have "(cu CHR ''/'' # c # v) @ v' \<in> star ?S" using v' by (rule star.star_more)
    then show ?thesis using x by simp
  next
    case False
    then have "c = cu CHR ''/''" using Cons.prems by simp
    moreover have "[cu CHR ''/''] \<in> ?S" by simp
    then have "[cu CHR ''/''] @ (cu CHR ''/'' # x) \<in> star ?S" using ih by (rule star.star_more)
    ultimately show ?thesis by simp
  qed
qed

lemma lang_path: "w \<in> lang path \<longleftrightarrow> path_ok w"
proof -
  let ?S = "{cu CHR ''/'' # s | s. \<forall>u \<in> set s. path_char u}"
  have S: "lang (Seq (lit CHR ''/'')
      (Star (Cls [Single CHR ''-'', a_z, digit, Single CHR ''%'', Single CHR ''_'',
                  Single CHR ''.'', Single CHR ''~'', Single CHR ''+'']))) = ?S"
    by (rule set_eqI) (simp add: lang_segment del: lang.simps)
  have "w \<in> lang path \<longleftrightarrow> w \<in> star ?S"
    unfolding path_def lang.simps(6) S ..
  also have "\<dots> \<longleftrightarrow> path_ok w"
  proof
    assume "w \<in> star ?S"
    then show "path_ok w"
      by (induction rule: star.induct) (auto simp: path_ok_def)
  next
    assume p: "path_ok w"
    show "w \<in> star ?S"
    proof (cases w)
      case Nil then show ?thesis by (simp add: star.star_nil)
    next
      case (Cons c x)
      then have "c = cu CHR ''/''" "\<forall>u \<in> set x. u = cu CHR ''/'' \<or> path_char u"
        using p by (simp_all add: path_ok_def)
      then show ?thesis using slash_path_in_star [of x] Cons by simp
    qed
  qed
  finally show ?thesis .
qed

lemma lang_pattern: "w \<in> lang pattern \<longleftrightarrow> valid_seed w"
proof
  assume "w \<in> lang pattern"
  then have "w \<in> conc (lang protocol) (conc (lang (Alt domain_name ip_address))
      (conc (lang port) (conc (lang path) (conc (lang query_string) (lang fragment)))))"
    by (simp only: pattern_def lang.simps(4))
  then obtain sch h po pa q f where w: "w = sch @ h @ po @ pa @ q @ f"
      and m: "sch \<in> lang protocol" "h \<in> lang (Alt domain_name ip_address)" "po \<in> lang port"
        "pa \<in> lang path" "q \<in> lang query_string" "f \<in> lang fragment"
    unfolding conc_iff by (elim exE conjE) simp
  from m have "scheme_ok sch" "dotted_name h \<or> dotted_quad h" "port_ok po" "path_ok pa"
      "query_ok q" "fragment_ok f"
    unfolding in_lang_Alt lang_protocol lang_domain_name lang_ip_address lang_port lang_path
      lang_query lang_fragment by simp_all
  with w have "w = sch @ h @ po @ pa @ q @ f \<and> scheme_ok sch
                     \<and> (dotted_name h \<or> dotted_quad h) \<and> port_ok po \<and> path_ok pa
                     \<and> query_ok q \<and> fragment_ok f" by (intro conjI)
  then show "valid_seed w" unfolding valid_seed_def by (intro exI)
next
  assume "valid_seed w"
  then obtain sch h po pa q f where w: "w = sch @ h @ po @ pa @ q @ f"
      and s: "scheme_ok sch" "dotted_name h \<or> dotted_quad h" "port_ok po" "path_ok pa"
        "query_ok q" "fragment_ok f"
    unfolding valid_seed_def by (elim exE conjE)
  from s have m: "sch \<in> lang protocol" "h \<in> lang (Alt domain_name ip_address)" "po \<in> lang port"
        "pa \<in> lang path" "q \<in> lang query_string" "f \<in> lang fragment"
    unfolding in_lang_Alt lang_protocol lang_domain_name lang_ip_address lang_port lang_path
      lang_query lang_fragment by simp_all
  have "sch @ h @ po @ pa @ q @ f \<in> conc (lang protocol) (conc (lang (Alt domain_name ip_address))
      (conc (lang port) (conc (lang path) (conc (lang query_string) (lang fragment)))))"
    by (intro concI m)
  then show "w \<in> lang pattern" using w by (simp only: pattern_def lang.simps(4))
qed

lemma validateUrl_iff: "validateUrl url \<longleftrightarrow> valid_seed url"
  by (simp add: validateUrl_def matches_lang lang_pattern)

lemma colon_slash_skip: "58 \<notin> set a \<Longrightarrow> colon_slash (a @ b) = colon_slash b"
proof (induction a)
  case Nil show ?case by simp
next
  case (Cons x a)
  then have ih: "colon_slash (a @ b) = colon_slash b" and x: "x \<noteq> 58" by auto
  show ?case
  proof (cases "a @ b")
    case Nil then show ?thesis by simp
  next
    case (Cons y r)
    then have "colon_slash (x # a @ b) = colon_slash (a @ b)" using x by simp
    then show ?thesis using ih by simp
  qed
qed

lemma colon_slash_found: "colon_slash (x @ 58 # 47 # y)"
proof (induction x)
  case Nil show ?case by simp
next
  case (Cons a x)
  then show ?case by (cases "x @ 58 # 47 # y") simp_all
qed

lemma not_colon:
  "\<not> is_alnum 58" "\<not> is_digit 58" "\<not> is_letter 58" "\<not> path_char 58" "\<not> query_char 58"
  "\<not> fragment_char 58" "cu CHR ''.'' \<noteq> 58" "cu CHR ''-'' \<noteq> 58" "cu CHR ''/'' \<noteq> 58"
  "cu CHR ''?'' \<noteq> 58" "cu CHR ''#'' \<noteq> 58" "cu CHR '':'' = 58"
  by (simp_all add: is_alnum_def is_letter_def is_digit_def path_char_def query_char_def
      fragment_char_def one_of_def in_range_def cu_def)

lemma no_colon_label: "hostname_label l \<Longrightarrow> 58 \<notin> set l"
  using not_colon by (auto simp: hostname_label_def)

lemma no_colon_host:
  assumes "dotted_name h \<or> dotted_quad h"
  shows "58 \<notin> set h"
  using assms
proof
  assume "dotted_name h"
  then obtain ls t where "\<forall>l \<in> set ls. hostname_label l" "top_level t"
      "h = concat (map (\<lambda>l. l @ [cu CHR ''.'']) ls) @ t"
    unfolding dotted_name_def by (elim exE conjE)
  then show ?thesis using not_colon no_colon_label by (auto simp: top_level_def)
next
  assume "dotted_quad h"
  then obtain a b c d where "octet a" "octet b" "octet c" "octet d"
      "h = a @ cu CHR ''.'' # b @ cu CHR ''.'' # c @ cu CHR ''.'' # d"
    unfolding dotted_quad_def by (elim exE conjE)
  then show ?thesis using not_colon by (auto simp: octet_def)
qed

lemma no_colon_tail:
  assumes "path_ok pa" and "query_ok q" and "fragment_ok f"
  shows "58 \<notin> set (pa @ q @ f)"
  using assms not_colon by (auto simp: path_ok_def query_ok_def fragment_ok_def)

lemma no_colon_slash_after_scheme:
  assumes "dotted_name h \<or> dotted_quad h" and "port_ok po" and "path_ok pa" and "query_ok q"
      and "fragment_ok f"
  shows "\<not> colon_slash (h @ po @ pa @ q @ f)"
proof -
  have t: "\<not> colon_slash (pa @ q @ f)"
    using colon_slash_skip [OF no_colon_tail [OF assms(3,4,5)], of "[]"] by simp
  have "\<not> colon_slash (po @ pa @ q @ f)"
  proof (cases "po = []")
    case True then show ?thesis using t by simp
  next
    case False
    then obtain d ds where po: "po = 58 # d # ds" and dg: "is_digit d" "\<forall>u \<in> set ds. is_digit u"
      using assms(2) not_colon(12) unfolding port_ok_def by (metis list.exhaust list.set_intros(1,2))
    have "d \<noteq> 47" "d \<noteq> 58" using dg(1) by (auto simp: is_digit_def in_range_def cu_def)
    moreover have "58 \<notin> set (d # ds)" using dg not_colon(2) by auto
    then have "colon_slash ((d # ds) @ pa @ q @ f) = colon_slash (pa @ q @ f)"
      by (rule colon_slash_skip)
    ultimately show ?thesis using t po by simp
  qed
  then show ?thesis using colon_slash_skip [OF no_colon_host [OF assms(1)]] by simp
qed

lemma canonicalize_colon: "canonicalize 58 = 58"
  by (simp add: canonicalize_def in_range_def cu_def)

lemma below_seven: "n < 7 \<Longrightarrow> n \<in> {0, 1, 2, 3, 4, 5, 6::nat}"
  by (simp only: insert_iff empty_iff) arith

lemma below_eight: "n < 8 \<Longrightarrow> n \<in> {0, 1, 2, 3, 4, 5, 6, 7::nat}"
  by (simp only: insert_iff empty_iff) arith

lemma scheme_before_colon_slash:
  assumes w: "x @ 58 # 47 # 47 # y = sch @ rest"
      and s: "scheme_ok sch" and r: "\<not> colon_slash rest"
  shows "map canonicalize x = map cu ''HTTP'' \<or> map canonicalize x = map cu ''HTTPS''"
proof -
  let ?w = "x @ 58 # 47 # 47 # y"
  have found: "colon_slash (v @ 58 # 47 # 47 # y)" for v
    using colon_slash_found [of v "47 # y"] by simp
  have at: "?w ! length x = 58" by simp
  have pre: "take (length x) ?w = x" by simp
  have long: "False" if "length sch \<le> length x"
  proof -
    have a: "drop (length sch) ?w = drop (length sch) x @ 58 # 47 # 47 # y"
      using that by simp
    have b: "drop (length sch) ?w = rest" unfolding w by simp
    have "rest = drop (length sch) x @ 58 # 47 # 47 # y"
      using a unfolding b .
    then have "colon_slash rest" by (simp only: found)
    with r show False by contradiction
  qed
  from s consider "sch = []" | "map canonicalize sch = map cu ''HTTP://''"
    | "map canonicalize sch = map cu ''HTTPS://''"
    unfolding scheme_ok_def by blast
  then show ?thesis
  proof cases
    case 1 then show ?thesis using long by simp
  next
    case 2
    then obtain a b c d where sch: "sch = [a, b, c, d, 58, 47, 47]"
        and l: "canonicalize a = 72" "canonicalize b = 84" "canonicalize c = 84"
          "canonicalize d = 80"
      by (auto simp: cu_def map_eq_Cons_conv canonicalize_punct)
    have ls: "length sch = 7" by (simp add: sch)
    have n: "length x < 7" using long ls by fastforce
    from at have "(sch @ rest) ! length x = 58" unfolding w .
    then have "sch ! length x = 58" using n ls by (simp add: nth_append)
    with below_seven [OF n] l have "length x = 4"
      by (auto simp: sch canonicalize_colon)
    then have "x = [a, b, c, d]" using pre unfolding w by (simp add: sch)
    then show ?thesis using l by (simp add: cu_def)
  next
    case 3
    then obtain a b c d e where sch: "sch = [a, b, c, d, e, 58, 47, 47]"
        and l: "canonicalize a = 72" "canonicalize b = 84" "canonicalize c = 84"
          "canonicalize d = 80" "canonicalize e = 83"
      by (auto simp: cu_def map_eq_Cons_conv canonicalize_punct)
    have ls: "length sch = 8" by (simp add: sch)
    have n: "length x < 8" using long ls by fastforce
    from at have "(sch @ rest) ! length x = 58" unfolding w .
    then have "sch ! length x = 58" using n ls by (simp add: nth_append)
    with below_eight [OF n] l have "length x = 5"
      by (auto simp: sch canonicalize_colon)
    then have "x = [a, b, c, d, e]" using pre unfolding w by (simp add: sch)
    then show ?thesis using l by (simp add: cu_def)
  qed
qed

lemma only_http_schemes:
  assumes "validateUrl (x @ js ''://'' @ y)"
  shows "map canonicalize x = js ''HTTP'' \<or> map canonicalize x = js ''HTTPS''"
proof -
  have e: "x @ js ''://'' @ y = x @ 58 # 47 # 47 # y"
    by (simp add: js_def cu_def)
  from assms have "valid_seed (x @ 58 # 47 # 47 # y)"
    unfolding validateUrl_iff e .
  then obtain sch h po pa q f where w: "x @ 58 # 47 # 47 # y = sch @ h @ po @ pa @ q @ f"
      and s: "scheme_ok sch" and r: "dotted_name h \<or> dotted_quad h" "port_ok po" "path_ok pa"
        "query_ok q" "fragment_ok f"
    unfolding valid_seed_def by (elim exE conjE)
  from r have "\<not> colon_slash (h @ po @ pa @ q @ f)" by (rule no_colon_slash_after_scheme)
  with w s show ?thesis unfolding js_def by (rule scheme_before_colon_slash)
qed

lemma tail_ok_empty: "tail_ok []"
  by (simp add: tail_ok_def port_ok_def path_ok_def query_ok_def fragment_ok_def)

lemmas claimed_eval =
  claimed_seed_def claimed_host_def quad_shaped_def ipv4_octet_def octet_def decimal_def
  strip_scheme_def host_part_def hostname_label_def is_alnum_def is_letter_def is_digit_def
  in_range_def canonicalize_def js_def cu_def tail_ok_empty

lemma claimed_a_b: "claimed_seed (js ''a.b'')"
  by (simp add: claimed_eval)

lemma claimed_localhost: "claimed_seed (js ''http://localhost'')"
  by (simp add: claimed_eval)

lemma not_claimed_999: "\<not> claimed_seed (js ''999.999.999.999'')"
  by (simp add: claimed_eval)

text \<open>
  C4, as stated, fails. \<open>a.b\<close> and \<open>http://localhost\<close> have a host of dot-separated
  labels and are rejected: the pattern wants a dot and a last label of two or more
  letters. \<open>999.999.999.999\<close> is no IPv4 address and is accepted: the pattern does not
  bound the four numbers.
\<close>

theorem validateUrl_differs_from_claimed_seed:
  "claimed_seed (js ''a.b'') \<and> \<not> validateUrl (js ''a.b'')
   \<and> claimed_seed (js ''http://localhost'') \<and> \<not> validateUrl (js ''http://localhost'')
   \<and> \<not> claimed_seed (js ''999.999.999.999'') \<and> validateUrl (js ''999.999.999.999'')"
proof -
  have a: "\<not> validateUrl (js ''a.b'')"
    by (simp add: validate_eval del: item_matches.simps)
  have b: "\<not> validateUrl (js ''http://localhost'')"
    by (simp add: validate_eval del: item_matches.simps)
  have c: "validateUrl (js ''999.999.999.999'')"
    by (simp add: validate_eval del: item_matches.simps)
  show ?thesis using a b c claimed_a_b claimed_localhost not_claimed_999 by simp
qed

text \<open>
  C4, amended. \<open>validateUrl\<close> is a function of its argument alone, defined on every
  string of code units. It accepts exactly the strings made of: an optional scheme
  \<open>http://\<close> or \<open>https://\<close> in any case; a host that is either one or more labels, each
  followed by a dot, and then a top-level name of two or more letters, or four groups of
  one to three digits separated by dots (with no bound on their value); an optional port;
  an optional path, query and fragment over the character sets of the pattern. An accepted
  input that contains \<open>://\<close> has nothing but \<open>http\<close> or \<open>https\<close> before it, so every
  other scheme is rejected; the two examples of the source's comment evaluate as the
  comment says.
\<close>

theorem validateUrl_accepts_exactly_valid_seeds:
  "(validateUrl url \<longleftrightarrow> valid_seed url)
   \<and> (validateUrl (x @ js ''://'' @ y) \<longrightarrow>
        map canonicalize x = js ''HTTP'' \<or> map canonicalize x = js ''HTTPS'')
   \<and> validateUrl (js ''https://www.example.com'')
   \<and> \<not> validateUrl (js ''ftp://example.com'')"
proof -
  have a: "validateUrl (js ''https://www.example.com'')"
    by (simp add: validate_eval del: item_matches.simps)
  have b: "\<not> validateUrl (js ''ftp://example.com'')"
    by (simp add: validate_eval del: item_matches.simps)
  show ?thesis using validateUrl_iff [of url] only_http_schemes [of x y] a b by blast
qed

text \<open>The theorem at concrete inputs.\<close>

theorem validateUrl_accepts_exactly_valid_seeds_witness:
  "validateUrl (js ''https://example.com'')
   \<and> valid_seed (js ''https://example.com'')
   \<and> validateUrl (js ''https'' @ js ''://'' @ js ''example.com'')
   \<and> map canonicalize (js ''https'') = js ''HTTPS''
   \<and> \<not> validateUrl (js ''sftp'' @ js ''://'' @ js ''example.com/a?b=c#d'')
   \<and> \<not> valid_seed (js ''not a url'')"
proof -
  note t1 = validateUrl_accepts_exactly_valid_seeds [where url = "js ''https://example.com''"
      and x = "js ''sftp''" and y = "js ''example.com/a?b=c#d''"]
  note t2 = validateUrl_accepts_exactly_valid_seeds [where url = "js ''not a url''"
      and x = "js ''https''" and y = "js ''example.com''"]
  have n: "map canonicalize (js ''sftp'') \<noteq> js ''HTTP''"
          "map canonicalize (js ''sftp'') \<noteq> js ''HTTPS''"
          "map canonicalize (js ''https'') \<noteq> js ''HTTP''"
    by (simp_all add: js_def cu_def canonicalize_def in_range_def)
  have j: "js ''https'' @ js ''://'' @ js ''example.com'' = js ''https://example.com''"
    by (simp add: js_def)
  have v: "validateUrl (js ''https'' @ js ''://'' @ js ''example.com'')"
    unfolding j by (rule valid_example)
  from t1 valid_example have a: "valid_seed (js ''https://example.com'')" by blast
  from t1 n have b: "\<not> validateUrl (js ''sftp'' @ js ''://'' @ js ''example.com/a?b=c#d'')"
    by blast
  from t2 invalid_not_a_url have c: "\<not> valid_seed (js ''not a url'')" by blast
  from t2 v n(3) have d: "map canonicalize (js ''https'') = js ''HTTPS''" by blast
  show ?thesis using valid_example a v d b c by blast
qed

section \<open>The App component: lemmas\<close>

lemma length_js: "length (js s) = length s"
  by (simp add: js_def)

lemma js_empty: "js s = [] \<longleftrightarrow> s = []"
  by (simp add: js_def)

lemmas app_eval =
  length_js js_empty init_def issue_def handleUrlChange_def startCrawl_def handleKeyPress_def button_disabled_def
  POLL_INTERVAL_def checkTaskStatus_def clearInterval_def startCrawl_catch_def
  startCrawl_resume_def interval_callback_def poll_catch_def poll_resume_def
  startCrawlService_def checkTaskStatusService_def ok_def Let_def

lemma settle_submit:
  "map_of (pending s) r = Some AwaitSubmit \<Longrightarrow>
   step (Settle r out) s =
     startCrawl_resume (startCrawlService out)
       (s\<lparr> pending := filter (\<lambda>p. fst p \<noteq> r) (pending s) \<rparr>)"
  by simp

lemma settle_poll:
  "map_of (pending s) r = Some (AwaitPoll i) \<Longrightarrow>
   step (Settle r out) s =
     poll_resume i (checkTaskStatusService out)
       (s\<lparr> pending := filter (\<lambda>p. fst p \<noteq> r) (pending s) \<rparr>)"
  by simp

lemma settle_unknown: "map_of (pending s) r = None \<Longrightarrow> step (Settle r out) s = s"
  by simp

lemma map_of_filter_key: "map_of (filter (\<lambda>p. fst p \<noteq> r) ps) r = None"
  by (auto simp: map_of_eq_None_iff)

text \<open>
  C10. When the submit request throws, the state changes in three places only: the call is
  no longer pending, the error message is set and the loading flag is cleared. No interval
  is registered, no request is made, and the task id, the task status and the crawled data
  are what they were.
\<close>

theorem submit_failure_atomic:
  assumes "map_of (pending s) r = Some AwaitSubmit" and "startCrawlService out = Inl e"
  shows "step (Settle r out) s =
           s\<lparr> pending := filter (\<lambda>p. fst p \<noteq> r) (pending s),
              errorMessage := ''Network error: '' @ message e, loading := False \<rparr>
         \<and> timers (step (Settle r out) s) = timers s
         \<and> sent (step (Settle r out) s) = sent s
         \<and> taskId (step (Settle r out) s) = taskId s
         \<and> taskStatus (step (Settle r out) s) = taskStatus s
         \<and> crawledData (step (Settle r out) s) = crawledData s
         \<and> map_of (pending (step (Settle r out) s)) r = None"
  using assms
  by (simp add: settle_submit startCrawl_resume_def startCrawl_catch_def map_of_filter_key
           del: step.simps)

lemma submit_pending_eval:
  "submit_pending =
     \<lparr> startUrl = js ''https://example.com'', taskId = JStr [], taskStatus = JStr [],
       crawledData = JObj [], loading = True, isUrlValid = True, errorMessage = [],
       timers = [], next_timer_id = 0, pending = [(0, AwaitSubmit)],
       sent = [(ByStartCrawl, PostStartCrawl (js ''https://example.com''))] \<rparr>"
  by (simp add: submit_pending_def app_eval valid_example)

text \<open>The theorem at a concrete state.\<close>

theorem submit_failure_atomic_witness:
  "map_of (pending submit_pending) 0 = Some AwaitSubmit
   \<and> startCrawlService (NetworkFailure ''Failed to fetch'') = Inl (TypeError ''Failed to fetch'')
   \<and> step (Settle 0 (NetworkFailure ''Failed to fetch'')) submit_pending =
       submit_pending\<lparr> pending := [],
          errorMessage := ''Network error: Failed to fetch'', loading := False \<rparr>
   \<and> timers (step (Settle 0 (NetworkFailure ''Failed to fetch'')) submit_pending) = []
   \<and> taskId (step (Settle 0 (NetworkFailure ''Failed to fetch'')) submit_pending) = JStr []"
proof -
  have p: "map_of (pending submit_pending) 0 = Some AwaitSubmit"
    by (simp add: submit_pending_eval)
  have f: "startCrawlService (NetworkFailure ''Failed to fetch'') = Inl (TypeError ''Failed to fetch'')"
    by (simp add: startCrawlService_def)
  show ?thesis
    using submit_failure_atomic [OF p f] p f by (simp add: submit_pending_eval)
qed






lemma find_timer: "find (\<lambda>t. timer_id t = i) (timers s) = Some t \<Longrightarrow> t \<in> set (timers s) \<and> timer_id t = i"
  by (auto simp: find_Some_iff)










lemma timers_startCrawl: "timers (startCrawl s) = timers s"
  by (simp add: startCrawl_def issue_def)


lemma sent_settle: "sent (step (Settle r out) s) = sent s"
  by (auto simp: startCrawl_resume_def startCrawl_catch_def checkTaskStatus_def poll_resume_def
      poll_catch_def clearInterval_def Let_def split: option.splits continuation.splits sum.splits)



lemma poll_completed:
  assumes "map_of (pending s) r = Some (AwaitPoll i)"
      and "checkTaskStatusService out = Inr data"
      and "get_prop data ''status'' = Inr (JStr ''completed'')"
      and "get_prop data ''crawled_data'' = Inr d"
  shows "step (Settle r out) s =
           s\<lparr> pending := filter (\<lambda>p. fst p \<noteq> r) (pending s), taskStatus := JStr ''completed'',
              timers := filter (\<lambda>t. timer_id t \<noteq> i) (timers s), loading := False,
              crawledData := d \<rparr>"
  using assms by (simp add: poll_resume_def clearInterval_def)

lemma poll_failed:
  assumes "map_of (pending s) r = Some (AwaitPoll i)"
      and "checkTaskStatusService out = Inr data"
      and "get_prop data ''status'' = Inr (JStr ''failed'')"
  shows "step (Settle r out) s =
           s\<lparr> pending := filter (\<lambda>p. fst p \<noteq> r) (pending s), taskStatus := JStr ''failed'',
              timers := filter (\<lambda>t. timer_id t \<noteq> i) (timers s), loading := False,
              errorMessage := ''Task failed.'' \<rparr>"
  using assms by (simp add: poll_resume_def clearInterval_def)

lemma poll_error:
  assumes "map_of (pending s) r = Some (AwaitPoll i)"
      and "checkTaskStatusService out = Inl e"
  shows "step (Settle r out) s =
           s\<lparr> pending := filter (\<lambda>p. fst p \<noteq> r) (pending s),
              errorMessage := ''Network error: '' @ message e,
              timers := filter (\<lambda>t. timer_id t \<noteq> i) (timers s), loading := False \<rparr>"
  using assms by (simp add: poll_resume_def poll_catch_def clearInterval_def)

lemmas run_eval = app_eval ok_json_def valid_example valid_other invalid_not_a_url

lemma scenario_A_eval:
  "run scenario_A init =
     \<lparr> startUrl = js ''https://example.com'', taskId = JStr ''t1'',
       taskStatus = JStr ''completed'', crawledData = example_result,
       loading = False, isUrlValid = True, errorMessage = [], timers = [],
       next_timer_id = 1, pending = [],
       sent = [(ByStartCrawl, PostStartCrawl (js ''https://example.com'')),
               (ByTimer 0, GetTaskStatus (JStr ''t1'')),
               (ByTimer 0, GetTaskStatus (JStr ''t1'')),
               (ByTimer 0, GetTaskStatus (JStr ''t1''))] \<rparr>"
  by (simp add: scenario_A_def run_eval)


lemma polling_t1_eval:
  "polling_t1 =
     \<lparr> startUrl = js ''https://example.com'', taskId = JStr ''t1'', taskStatus = JStr [],
       crawledData = JObj [], loading = True, isUrlValid = True, errorMessage = [],
       timers = [\<lparr> timer_id = 0, delay_ms = 2000, task_arg = JStr ''t1'' \<rparr>],
       next_timer_id = 1, pending = [(1, AwaitPoll 0)],
       sent = [(ByStartCrawl, PostStartCrawl (js ''https://example.com'')),
               (ByTimer 0, GetTaskStatus (JStr ''t1''))] \<rparr>"
  by (simp add: polling_t1_def run_eval)


lemma crawledData_changes:
  assumes "crawledData (step ev s) \<noteq> crawledData s"
  shows "\<exists>r out i data. ev = Settle r out \<and> map_of (pending s) r = Some (AwaitPoll i)
            \<and> checkTaskStatusService out = Inr data
            \<and> get_prop data ''status'' = Inr (JStr ''completed'')"
proof (cases ev)
  case (Settle r out)
  show ?thesis
  proof (cases "map_of (pending s) r")
    case None then show ?thesis using Settle assms by simp
  next
    case (Some k)
    show ?thesis
    proof (cases k)
      case AwaitSubmit
      then show ?thesis using Settle Some assms
        by (auto simp: startCrawl_resume_def startCrawl_catch_def checkTaskStatus_def Let_def
            split: sum.splits)
    next
      case (AwaitPoll i)
      then show ?thesis using Settle Some assms
        by (auto simp: poll_resume_def poll_catch_def clearInterval_def Let_def
            split: sum.splits if_splits)
    qed
  qed
qed (use assms in \<open>auto simp: handleUrlChange_def handleKeyPress_def startCrawl_def issue_def
      interval_callback_def split: option.splits if_splits\<close>)

text \<open>
  C9. The crawled data changes only when a pending status fetch settles with status
  \<open>completed\<close>. A status fetch that ends its loop with status \<open>failed\<close> or with an error
  leaves the crawled data and the task id as they were.
\<close>

theorem crawled_data_written_only_on_completed:
  "(crawledData (step ev s) \<noteq> crawledData s \<longrightarrow>
      (\<exists>r out i data. ev = Settle r out \<and> map_of (pending s) r = Some (AwaitPoll i)
          \<and> checkTaskStatusService out = Inr data
          \<and> get_prop data ''status'' = Inr (JStr ''completed'')))
   \<and> (map_of (pending s) r = Some (AwaitPoll i)
        \<and> (checkTaskStatusService out = Inl e
           \<or> (checkTaskStatusService out = Inr data
               \<and> get_prop data ''status'' = Inr (JStr ''failed'')))
      \<longrightarrow> crawledData (step (Settle r out) s) = crawledData s
          \<and> taskId (step (Settle r out) s) = taskId s
          \<and> i \<notin> timer_ids (step (Settle r out) s))"
proof -
  have a: "crawledData (step (Settle r out) s) = crawledData s
          \<and> taskId (step (Settle r out) s) = taskId s
          \<and> i \<notin> timer_ids (step (Settle r out) s)"
    if "map_of (pending s) r = Some (AwaitPoll i)" "checkTaskStatusService out = Inl e"
    using poll_error [OF that] by (auto simp: timer_ids_def simp del: step.simps)
  have b: "crawledData (step (Settle r out) s) = crawledData s
          \<and> taskId (step (Settle r out) s) = taskId s
          \<and> i \<notin> timer_ids (step (Settle r out) s)"
    if "map_of (pending s) r = Some (AwaitPoll i)" "checkTaskStatusService out = Inr data"
       "get_prop data ''status'' = Inr (JStr ''failed'')"
    using poll_failed [OF that] by (auto simp: timer_ids_def simp del: step.simps)
  show ?thesis using a b crawledData_changes [of ev s] by blast
qed


lemma second_lifecycle_eval:
  "run second_lifecycle init =
     \<lparr> startUrl = js ''https://example.com'', taskId = JStr ''t2'',
       taskStatus = JStr ''completed'', crawledData = example_result,
       loading = True, isUrlValid = True, errorMessage = [],
       timers = [\<lparr> timer_id = 1, delay_ms = 2000, task_arg = JStr ''t2'' \<rparr>],
       next_timer_id = 2, pending = [(5, AwaitPoll 1)],
       sent = [(ByStartCrawl, PostStartCrawl (js ''https://example.com'')),
               (ByTimer 0, GetTaskStatus (JStr ''t1'')),
               (ByTimer 0, GetTaskStatus (JStr ''t1'')),
               (ByTimer 0, GetTaskStatus (JStr ''t1'')),
               (ByStartCrawl, PostStartCrawl (js ''https://example.com'')),
               (ByTimer 1, GetTaskStatus (JStr ''t2''))] \<rparr>"
  by (simp add: second_lifecycle_def scenario_A_def run_eval)

text \<open>The theorem at a concrete state.\<close>

theorem crawled_data_written_only_on_completed_witness:
  "map_of (pending (run second_lifecycle init)) 5 = Some (AwaitPoll 1)
   \<and> checkTaskStatusService (ok_json (JObj [(''status'', JStr ''failed'')]))
        = Inr (JObj [(''status'', JStr ''failed'')])
   \<and> get_prop (JObj [(''status'', JStr ''failed'')]) ''status'' = Inr (JStr ''failed'')
   \<and> crawledData (step (Settle 5 (ok_json (JObj [(''status'', JStr ''failed'')])))
                      (run second_lifecycle init)) = example_result
   \<and> taskId (step (Settle 5 (ok_json (JObj [(''status'', JStr ''failed'')])))
                 (run second_lifecycle init)) = JStr ''t2''
   \<and> taskStatus (step (Settle 5 (ok_json (JObj [(''status'', JStr ''failed'')])))
                 (run second_lifecycle init)) = JStr ''failed''"
proof -
  let ?f = "JObj [(''status'', JStr ''failed'')]"
  have h1: "map_of (pending (run second_lifecycle init)) 5 = Some (AwaitPoll 1)"
    by (simp add: second_lifecycle_eval)
  have h2: "checkTaskStatusService (ok_json ?f) = Inr ?f"
    by (simp add: checkTaskStatusService_def ok_json_def ok_def)
  have h3: "get_prop ?f ''status'' = Inr (JStr ''failed'')" by simp
  have st: "taskStatus (step (Settle 5 (ok_json ?f)) (run second_lifecycle init)) = JStr ''failed''"
    using poll_failed [OF h1 h2 h3] by (simp del: step.simps)
  note t = crawled_data_written_only_on_completed
    [where s = "run second_lifecycle init" and r = 5 and i = 1 and out = "ok_json ?f"
       and data = ?f and ev = Click]
  show ?thesis using t h1 h2 h3 st by (simp add: second_lifecycle_eval del: step.simps)
qed

text \<open>
  C6. When the validator rejects the input, \<open>startCrawl\<close> only marks the URL invalid and
  sets the message \<open>Invalid URL.\<close>; a click or a key press makes no request, leaves the
  pending calls, the intervals, the task id, the task status, the crawled data and the
  loading flag as they were; and the message differs from that of a failed submit or
  fetch and from that of a failed task.
\<close>

theorem rejected_seed_refused:
  assumes "\<not> validateUrl (startUrl s)"
  shows "startCrawl s = s\<lparr> isUrlValid := False, errorMessage := ''Invalid URL.'' \<rparr>
       \<and> (\<forall>ev \<in> {Click, KeyPress key}.
             sent (step ev s) = sent s \<and> pending (step ev s) = pending s
             \<and> timers (step ev s) = timers s \<and> taskId (step ev s) = taskId s
             \<and> taskStatus (step ev s) = taskStatus s \<and> crawledData (step ev s) = crawledData s
             \<and> loading (step ev s) = loading s)
       \<and> errorMessage (startCrawl s) \<noteq> errorMessage (startCrawl_catch e s')
       \<and> errorMessage (startCrawl s) \<noteq> ''Task failed.''"
  using assms by (simp add: startCrawl_def handleKeyPress_def startCrawl_catch_def)

text \<open>The theorem at a concrete state.\<close>

theorem rejected_seed_refused_witness:
  "\<not> validateUrl (startUrl (step (Change (js ''not a url'')) init))
   \<and> step Click (step (Change (js ''not a url'')) init)
       = init\<lparr> startUrl := js ''not a url'', isUrlValid := False, errorMessage := ''Invalid URL.'' \<rparr>
   \<and> sent (step Click (step (Change (js ''not a url'')) init)) = []
   \<and> sent (step (KeyPress ''Enter'') (step (Change (js ''not a url'')) init)) = []
   \<and> taskId (step Click (step (Change (js ''not a url'')) init)) = taskId init
   \<and> taskStatus (step Click (step (Change (js ''not a url'')) init)) = taskStatus init
   \<and> crawledData (step Click (step (Change (js ''not a url'')) init)) = crawledData init"
proof -
  have h: "\<not> validateUrl (startUrl (step (Change (js ''not a url'')) init))"
    by (simp add: handleUrlChange_def invalid_not_a_url)
  have b: "\<not> button_disabled (step (Change (js ''not a url'')) init)"
    by (simp add: button_disabled_def handleUrlChange_def init_def js_empty)
  from rejected_seed_refused [OF h, of "''Enter''"] h b show ?thesis
    by (simp add: handleUrlChange_def init_def)
qed

text \<open>
  C8, as stated, fails: a response with a success status whose body is not JSON makes
  the submit fail, although the status is a success and the transport did not fail.
\<close>

theorem submit_fails_on_success_status:
  "ok \<lparr> status = 200, json = Inl ''Unexpected end of JSON input'' \<rparr>
   \<and> startCrawlService (Responded \<lparr> status = 200, json = Inl ''Unexpected end of JSON input'' \<rparr>)
       = Inl (SyntaxError ''Unexpected end of JSON input'')"
  by (simp add: startCrawlService_def ok_def)

lemma sent_issue: "sent (issue who rq k s) = sent s @ [(who, rq)]"
  by (simp add: issue_def)

text \<open>
  C8, amended. Each client function fails exactly when the transport fails, the backend
  responds with a non-success status, or the body of a success response is not JSON. The
  status fetch fails with the error \<open>Task not found.\<close> exactly when the backend responds
  404. On a success response with a JSON body each returns the parsed body. Each call
  makes one request, and a call that settles makes none: there is no retry.
\<close>

theorem task_client_errors:
  "(isl (startCrawlService out) \<longleftrightarrow>
      (case out of NetworkFailure m \<Rightarrow> True | Responded r \<Rightarrow> \<not> ok r \<or> isl (json r)))
   \<and> (isl (checkTaskStatusService out) \<longleftrightarrow>
      (case out of NetworkFailure m \<Rightarrow> True | Responded r \<Rightarrow> \<not> ok r \<or> isl (json r)))
   \<and> (checkTaskStatusService out = Inl (Error ''Task not found.'') \<longleftrightarrow>
      (\<exists>r. out = Responded r \<and> status r = 404))
   \<and> (ok r \<and> json r = Inr v \<longrightarrow>
        startCrawlService (Responded r) = Inr v \<and> checkTaskStatusService (Responded r) = Inr v)
   \<and> (validateUrl (startUrl s) \<longrightarrow>
        sent (startCrawl s) = sent s @ [(ByStartCrawl, PostStartCrawl (startUrl s))])
   \<and> sent (interval_callback t s) = sent s @ [(ByTimer (timer_id t), GetTaskStatus (task_arg t))]
   \<and> sent (step (Settle q out) s) = sent s"
proof -
  have a: "isl (startCrawlService out) \<longleftrightarrow>
      (case out of NetworkFailure m \<Rightarrow> True | Responded r \<Rightarrow> \<not> ok r \<or> isl (json r))"
    by (auto simp: startCrawlService_def split: fetch_outcome.splits sum.splits)
  have b: "isl (checkTaskStatusService out) \<longleftrightarrow>
      (case out of NetworkFailure m \<Rightarrow> True | Responded r \<Rightarrow> \<not> ok r \<or> isl (json r))"
    by (auto simp: checkTaskStatusService_def split: fetch_outcome.splits sum.splits)
  have c: "checkTaskStatusService out = Inl (Error ''Task not found.'') \<longleftrightarrow>
      (\<exists>r. out = Responded r \<and> status r = 404)"
    by (auto simp: checkTaskStatusService_def ok_def split: fetch_outcome.splits sum.splits)
  have d: "ok r \<and> json r = Inr v \<longrightarrow>
        startCrawlService (Responded r) = Inr v \<and> checkTaskStatusService (Responded r) = Inr v"
    by (simp add: startCrawlService_def checkTaskStatusService_def)
  have e: "validateUrl (startUrl s) \<longrightarrow>
        sent (startCrawl s) = sent s @ [(ByStartCrawl, PostStartCrawl (startUrl s))]"
    by (simp add: startCrawl_def sent_issue)
  have f: "sent (interval_callback t s) = sent s @ [(ByTimer (timer_id t), GetTaskStatus (task_arg t))]"
    by (simp add: interval_callback_def sent_issue)
  show ?thesis using a b c d e f sent_settle [of q out s] by blast
qed

text \<open>The theorem at a concrete state.\<close>

theorem task_client_errors_witness:
  "isl (startCrawlService (Responded \<lparr> status = 400, json = Inr (JObj [(''error'', JStr ''Invalid URL provided'')]) \<rparr>))
   \<and> \<not> isl (startCrawlService (ok_json (JObj [(''task_id'', JStr ''t1'')])))
   \<and> checkTaskStatusService (Responded \<lparr> status = 404, json = Inr (JObj [(''detail'', JStr ''Task not found.'')]) \<rparr>)
        = Inl (Error ''Task not found.'')
   \<and> checkTaskStatusService (Responded \<lparr> status = 500, json = Inr (JObj []) \<rparr>)
        \<noteq> Inl (Error ''Task not found.'')
   \<and> checkTaskStatusService (NetworkFailure ''Failed to fetch'') \<noteq> Inl (Error ''Task not found.'')
   \<and> startCrawlService (ok_json (JObj [(''task_id'', JStr ''t1'')])) = Inr (JObj [(''task_id'', JStr ''t1'')])
   \<and> sent (step (Settle 1 (NetworkFailure ''Failed to fetch'')) polling_t1) = sent polling_t1"
proof -
  let ?b = "\<lparr> status = 400, json = Inr (JObj [(''error'', JStr ''Invalid URL provided'')]) \<rparr>"
  let ?n = "\<lparr> status = 404, json = Inr (JObj [(''detail'', JStr ''Task not found.'')]) \<rparr>"
  let ?e = "\<lparr> status = 500, json = Inr (JObj []) \<rparr>"
  let ?g = "\<lparr> status = 200, json = Inr (JObj [(''task_id'', JStr ''t1'')]) \<rparr>"
  note t1 = task_client_errors [where out = "Responded ?b" and r = ?g
      and v = "JObj [(''task_id'', JStr ''t1'')]" and q = 1 and s = polling_t1]
  note t2 = task_client_errors [where out = "Responded ?g" and r = ?g
      and v = "JObj [(''task_id'', JStr ''t1'')]" and q = 1 and s = polling_t1]
  note t3 = task_client_errors [where out = "Responded ?n" and r = ?g
      and v = "JObj [(''task_id'', JStr ''t1'')]" and q = 1 and s = polling_t1]
  note t4 = task_client_errors [where out = "Responded ?e" and r = ?g
      and v = "JObj [(''task_id'', JStr ''t1'')]" and q = 1 and s = polling_t1]
  note t5 = task_client_errors [where out = "NetworkFailure ''Failed to fetch''" and r = ?g
      and v = "JObj [(''task_id'', JStr ''t1'')]" and q = 1 and s = polling_t1]
  have o: "ok ?g" "\<not> ok ?b" by (simp_all add: ok_def)
  show ?thesis
    using t1 t2 t3 t4 t5 o by (simp add: ok_json_def del: step.simps)
qed

lemma restart_after_A_eval:
  "run restart_after_A init =
     \<lparr> startUrl = js ''https://other.com'', taskId = JStr ''t1'',
       taskStatus = JStr ''completed'', crawledData = example_result,
       loading = True, isUrlValid = True, errorMessage = [], timers = [],
       next_timer_id = 1, pending = [(4, AwaitSubmit)],
       sent = [(ByStartCrawl, PostStartCrawl (js ''https://example.com'')),
               (ByTimer 0, GetTaskStatus (JStr ''t1'')),
               (ByTimer 0, GetTaskStatus (JStr ''t1'')),
               (ByTimer 0, GetTaskStatus (JStr ''t1'')),
               (ByStartCrawl, PostStartCrawl (js ''https://other.com''))] \<rparr>"
  by (simp add: restart_after_A_def scenario_A_def run_eval)

lemma task_fields_startCrawl:
  "taskId (startCrawl s) = taskId s \<and> taskStatus (startCrawl s) = taskStatus s
   \<and> crawledData (startCrawl s) = crawledData s"
  by (simp add: startCrawl_def issue_def)

lemma step_quiescent:
  assumes "timers s = []" and "pending s = []"
  shows "step (Tick j) s = s" and "step (Settle q out) s = s"
  using assms by simp_all

text \<open>
  C2. On the submit response the README documents (field \<open>taskId\<close>), the client returns
  the body as it is, the component reads \<open>task_id\<close>, stores \<open>undefined\<close> as the task id
  and fetches the status of \<open>undefined\<close>.
\<close>

theorem documented_task_id_not_stored:
  "startCrawlService (ok_json (JObj [(''taskId'', JStr ''12345''), (''status'', JStr ''initiated''),
                               (''startUrl'', JStr ''https://example.com'')]))
     = Inr (JObj [(''taskId'', JStr ''12345''), (''status'', JStr ''initiated''),
                  (''startUrl'', JStr ''https://example.com'')])
   \<and> taskId (run documented_submit init) = JUndefined
   \<and> taskId (run documented_submit init) \<noteq> JStr ''12345''
   \<and> sent (run documented_submit init) =
        [(ByStartCrawl, PostStartCrawl (js ''https://example.com'')),
         (ByTimer 0, GetTaskStatus JUndefined)]"
  by (simp add: documented_submit_def run_eval)

lemma superseded_eval:
  "run superseded init =
     \<lparr> startUrl = js ''https://other.com'', taskId = JStr ''t4'', taskStatus = JStr [],
       crawledData = JObj [], loading = True, isUrlValid = True, errorMessage = [],
       timers = [\<lparr> timer_id = 0, delay_ms = 2000, task_arg = JStr ''t3'' \<rparr>,
                 \<lparr> timer_id = 1, delay_ms = 2000, task_arg = JStr ''t4'' \<rparr>],
       next_timer_id = 2, pending = [(1, AwaitPoll 0)],
       sent = [(ByStartCrawl, PostStartCrawl (js ''https://example.com'')),
               (ByTimer 0, GetTaskStatus (JStr ''t3'')),
               (ByStartCrawl, PostStartCrawl (js ''https://other.com''))] \<rparr>"
  by (simp add: superseded_def run_eval)

lemma submits_filter_le:
  "length (filter (\<lambda>p. snd p = AwaitSubmit) (filter (\<lambda>p. fst p \<noteq> r) ps))
     \<le> length (filter (\<lambda>p. snd p = AwaitSubmit) ps)"
  by (induction ps) auto

lemma submits_filter_less:
  "map_of ps r = Some AwaitSubmit \<Longrightarrow>
   length (filter (\<lambda>p. snd p = AwaitSubmit) (filter (\<lambda>p. fst p \<noteq> r) ps))
     < length (filter (\<lambda>p. snd p = AwaitSubmit) ps)"
proof (induction ps)
  case Nil then show ?case by simp
next
  case (Cons p ps)
  show ?case
  proof (cases "fst p = r")
    case True
    then have "snd p = AwaitSubmit" using Cons.prems by (cases p) auto
    then show ?thesis using True submits_filter_le [of r ps] by (simp add: less_Suc_eq_le)
  next
    case False
    then have "map_of ps r = Some AwaitSubmit" using Cons.prems by (cases p) auto
    from Cons.IH [OF this] False show ?thesis by simp
  qed
qed

lemma loops_startCrawl_resume:
  "loops (startCrawl_resume res s) \<le> Suc (loops s)"
  by (auto simp: loops_def submits_pending_def startCrawl_resume_def startCrawl_catch_def
      checkTaskStatus_def split: sum.splits)

lemma loops_poll_resume: "loops (poll_resume i res s) \<le> loops s"
  by (auto simp: loops_def submits_pending_def poll_resume_def poll_catch_def clearInterval_def
      Let_def split: sum.splits)

lemma loops_step:
  assumes "loops s \<le> 1" and "is_start ev \<longrightarrow> timers s = [] \<and> pending s = []"
  shows "loops (step ev s) \<le> 1"
proof (cases ev)
  case (Change v)
  then show ?thesis using assms by (simp add: loops_def submits_pending_def handleUrlChange_def)
next
  case (KeyPress k)
  show ?thesis
  proof (cases "k = ''Enter''")
    case True
    then have "timers s = []" "pending s = []" using assms(2) KeyPress by (simp_all add: is_start_def)
    then show ?thesis using KeyPress
      by (simp add: loops_def submits_pending_def handleKeyPress_def startCrawl_def issue_def)
  next
    case False
    then show ?thesis using KeyPress assms(1) by (simp add: handleKeyPress_def)
  qed
next
  case Click
  then have "timers s = []" "pending s = []" using assms(2) by (simp_all add: is_start_def)
  then show ?thesis using Click
    by (simp add: loops_def submits_pending_def startCrawl_def issue_def)
next
  case (Tick j)
  then show ?thesis using assms(1)
    by (simp add: loops_def submits_pending_def interval_callback_def issue_def
        split: option.splits)
next
  case (Settle r out)
  let ?s' = "s\<lparr> pending := filter (\<lambda>p. fst p \<noteq> r) (pending s) \<rparr>"
  show ?thesis
  proof (cases "map_of (pending s) r")
    case None then show ?thesis using Settle assms(1) by simp
  next
    case (Some k)
    show ?thesis
    proof (cases k)
      case AwaitSubmit
      then have "loops ?s' < loops s"
        using Some submits_filter_less [of "pending s" r] by (simp add: loops_def submits_pending_def)
      moreover have "loops (startCrawl_resume (startCrawlService out) ?s') \<le> Suc (loops ?s')"
        by (rule loops_startCrawl_resume)
      ultimately show ?thesis using Settle Some AwaitSubmit assms(1) by simp
    next
      case (AwaitPoll j)
      have "loops ?s' \<le> loops s"
        using submits_filter_le [of r "pending s"] by (simp add: loops_def submits_pending_def)
      moreover have "loops (poll_resume j (checkTaskStatusService out) ?s') \<le> loops ?s'"
        by (rule loops_poll_resume)
      ultimately show ?thesis using Settle Some AwaitPoll assms(1) by simp
    qed
  qed
qed

lemma loops_run:
  "loops s \<le> 1 \<Longrightarrow> starts_when_idle evs s \<Longrightarrow> loops (run evs s) \<le> 1"
proof (induction evs arbitrary: s)
  case Nil then show ?case by simp
next
  case (Cons ev evs)
  from Cons.prems have "is_start ev \<longrightarrow> timers s = [] \<and> pending s = []" by simp
  with Cons.prems(1) have "loops (step ev s) \<le> 1" by (rule loops_step)
  moreover from Cons.prems have "starts_when_idle evs (step ev s)" by simp
  ultimately show ?case using Cons.IH by simp
qed

lemma pending_startCrawl: "set (pending s) \<subseteq> set (pending (startCrawl s))"
  by (auto simp: startCrawl_def issue_def)

text \<open>
  C1, as stated, fails: a start by the Enter key while task \<open>t3\<close> is polling leaves the
  interval of \<open>t3\<close> registered beside that of \<open>t4\<close>; the interval of \<open>t3\<close> goes on fetching,
  and the result of the status fetch of \<open>t3\<close> overwrites the task status and the crawled
  data while the task id is \<open>t4\<close>.
\<close>

theorem two_poll_loops_and_stale_result:
  "timers (run superseded init) =
       [\<lparr> timer_id = 0, delay_ms = 2000, task_arg = JStr ''t3'' \<rparr>,
        \<lparr> timer_id = 1, delay_ms = 2000, task_arg = JStr ''t4'' \<rparr>]
   \<and> taskId (run superseded init) = JStr ''t4''
   \<and> taskStatus (run superseded init) = JStr []
   \<and> crawledData (run superseded init) = JObj []
   \<and> sent (run (superseded @ [Tick 0]) init) =
       sent (run superseded init) @ [(ByTimer 0, GetTaskStatus (JStr ''t3''))]
   \<and> taskId (run (superseded @ [Settle 1 stale_result]) init) = JStr ''t4''
   \<and> taskStatus (run (superseded @ [Settle 1 stale_result]) init) = JStr ''completed''
   \<and> crawledData (run (superseded @ [Settle 1 stale_result]) init) = example_result
   \<and> \<not> loading (run (superseded @ [Settle 1 stale_result]) init)"
  by (simp add: superseded_def stale_result_def run_eval)




lemma quiescent_step:
  assumes "timers s = []" and "pending s = []" and "automatic ev"
  shows "step ev s = s"
  using assms by (cases ev) simp_all

lemma quiescent_run:
  assumes "timers s = []" and "pending s = []" and "list_all automatic evs"
  shows "run evs s = s"
  using assms
proof (induction evs)
  case Nil show ?case by simp
next
  case (Cons ev evs)
  then have "step ev s = s" by (simp add: quiescent_step)
  then show ?case using Cons by simp
qed

lemma poll_status_stored:
  assumes "map_of (pending s) r = Some (AwaitPoll i)" and "checkTaskStatusService out = Inr data"
      and "get_prop data ''status'' = Inr st"
  shows "taskStatus (step (Settle r out) s) = st"
  using assms
  by (auto simp: poll_resume_def poll_catch_def clearInterval_def Let_def split: sum.splits)


lemma startCrawl_accepted:
  assumes "validateUrl (startUrl s)"
  shows "startCrawl s =
           s\<lparr> loading := True, isUrlValid := True, errorMessage := [],
              pending := pending s @ [(length (sent s), AwaitSubmit)],
              sent := sent s @ [(ByStartCrawl, PostStartCrawl (startUrl s))] \<rparr>"
  using assms by (simp add: startCrawl_def issue_def)

lemma pending_startCrawl_eq:
  "pending (startCrawl s) =
     pending s @ (if validateUrl (startUrl s) then [(length (sent s), AwaitSubmit)] else [])"
  by (simp add: startCrawl_def issue_def)

lemma submit_success:
  assumes "map_of (pending s) r = Some AwaitSubmit" and "startCrawlService out = Inr data"
      and "get_prop data ''task_id'' = Inr tid"
  shows "step (Settle r out) s =
           s\<lparr> pending := filter (\<lambda>p. fst p \<noteq> r) (pending s), taskId := tid,
              timers := timers s @ [\<lparr> timer_id = next_timer_id s, delay_ms = 2000,
                                      task_arg = tid \<rparr>],
              next_timer_id := Suc (next_timer_id s) \<rparr>"
  using assms by (simp add: startCrawl_resume_def checkTaskStatus_def POLL_INTERVAL_def)

lemma other_timers_kept:
  assumes "map_of (pending s) r = Some (AwaitPoll i)"
  shows "filter (\<lambda>t. timer_id t \<noteq> i) (timers (step (Settle r out) s))
           = filter (\<lambda>t. timer_id t \<noteq> i) (timers s)"
  using assms
  by (auto simp: poll_resume_def poll_catch_def clearInterval_def Let_def split: sum.splits)

lemma tick_fetches:
  assumes "find (\<lambda>t. timer_id t = i) (timers s) = Some t"
  shows "step (Tick i) s =
           s\<lparr> pending := pending s @ [(length (sent s), AwaitPoll i)],
              sent := sent s @ [(ByTimer i, GetTaskStatus (task_arg t))] \<rparr>"
proof -
  from assms have "timer_id t = i" using find_timer by blast
  then show ?thesis using assms by (simp add: interval_callback_def issue_def)
qed

lemma taskStatus_changes:
  assumes "taskStatus (step ev s) \<noteq> taskStatus s"
  shows "\<exists>r out i. ev = Settle r out \<and> map_of (pending s) r = Some (AwaitPoll i)"
proof (cases ev)
  case (Settle r out)
  show ?thesis
  proof (cases "map_of (pending s) r")
    case None then show ?thesis using Settle assms by simp
  next
    case (Some k)
    show ?thesis
    proof (cases k)
      case AwaitSubmit
      then show ?thesis using Settle Some assms
        by (auto simp: startCrawl_resume_def startCrawl_catch_def checkTaskStatus_def Let_def
            split: sum.splits)
    next
      case (AwaitPoll i)
      then show ?thesis using Settle Some by simp
    qed
  qed
qed (use assms in \<open>auto simp: handleUrlChange_def handleKeyPress_def startCrawl_def issue_def
      interval_callback_def split: option.splits if_splits\<close>)

lemma taskId_changes:
  assumes "taskId (step ev s) \<noteq> taskId s"
  shows "\<exists>r out. ev = Settle r out \<and> map_of (pending s) r = Some AwaitSubmit"
proof (cases ev)
  case (Settle r out)
  show ?thesis
  proof (cases "map_of (pending s) r")
    case None then show ?thesis using Settle assms by simp
  next
    case (Some k)
    show ?thesis
    proof (cases k)
      case AwaitSubmit
      then show ?thesis using Settle Some by simp
    next
      case (AwaitPoll i)
      then show ?thesis using Settle Some assms
        by (auto simp: poll_resume_def poll_catch_def clearInterval_def Let_def
            split: sum.splits if_splits)
    qed
  qed
qed (use assms in \<open>auto simp: handleUrlChange_def handleKeyPress_def startCrawl_def issue_def
      interval_callback_def split: option.splits if_splits\<close>)

text \<open>
  C1, amended. When every start call is made with no interval registered and no call
  pending, at most one interval is registered at any time. A start call cancels nothing:
  it leaves the intervals as they are and only adds its submit to the pending calls; a
  submit that succeeds stores the task id and adds one interval, and changes nothing else;
  every registered interval that fires makes a status fetch for its own task; a status
  fetch that settles clears no interval but its own, and its status is stored, and its
  \<open>crawled_data\<close> when the status is \<open>completed\<close>, whichever task it was made for.
\<close>

theorem one_poll_loop_when_starts_are_idle:
  "(starts_when_idle evs init \<longrightarrow> length (timers (run evs init)) \<le> 1)
   \<and> timers (startCrawl s) = timers s
   \<and> pending (startCrawl s) =
       pending s @ (if validateUrl (startUrl s) then [(length (sent s), AwaitSubmit)] else [])
   \<and> (map_of (pending s) r = Some AwaitSubmit \<and> startCrawlService out = Inr data
        \<and> get_prop data ''task_id'' = Inr tid \<longrightarrow>
      step (Settle r out) s =
        s\<lparr> pending := filter (\<lambda>p. fst p \<noteq> r) (pending s), taskId := tid,
           timers := timers s @ [\<lparr> timer_id = next_timer_id s, delay_ms = 2000,
                                   task_arg = tid \<rparr>],
           next_timer_id := Suc (next_timer_id s) \<rparr>)
   \<and> (find (\<lambda>t. timer_id t = i) (timers s) = Some t \<longrightarrow>
      step (Tick i) s =
        s\<lparr> pending := pending s @ [(length (sent s), AwaitPoll i)],
           sent := sent s @ [(ByTimer i, GetTaskStatus (task_arg t))] \<rparr>)
   \<and> (map_of (pending s) r = Some (AwaitPoll i) \<longrightarrow>
      filter (\<lambda>t. timer_id t \<noteq> i) (timers (step (Settle r out) s))
        = filter (\<lambda>t. timer_id t \<noteq> i) (timers s))
   \<and> (map_of (pending s) r = Some (AwaitPoll i) \<and> checkTaskStatusService out = Inr data
        \<and> get_prop data ''status'' = Inr st \<longrightarrow>
      taskStatus (step (Settle r out) s) = st)
   \<and> (map_of (pending s) r = Some (AwaitPoll i) \<and> checkTaskStatusService out = Inr data
        \<and> get_prop data ''status'' = Inr (JStr ''completed'')
        \<and> get_prop data ''crawled_data'' = Inr d \<longrightarrow>
      crawledData (step (Settle r out) s) = d)"
proof -
  have "loops init \<le> 1" by (simp add: loops_def submits_pending_def init_def)
  then have a: "starts_when_idle evs init \<longrightarrow> length (timers (run evs init)) \<le> 1"
    using loops_run [of init evs] by (auto simp: loops_def)
  have c: "crawledData (step (Settle r out) s) = d"
    if "map_of (pending s) r = Some (AwaitPoll i)" "checkTaskStatusService out = Inr data"
       "get_prop data ''status'' = Inr (JStr ''completed'')" "get_prop data ''crawled_data'' = Inr d"
    using poll_completed [OF that] by (simp del: step.simps)
  show ?thesis
    using a c timers_startCrawl [of s] pending_startCrawl_eq [of s]
      submit_success [of s r out data tid] tick_fetches [of i s t]
      other_timers_kept [of s r i out] poll_status_stored [of s r i out data st]
    by blast
qed

text \<open>
  C3, as stated, fails, in both parts. After Scenario A and a fresh start with another
  URL, the submit is in flight and the task id, the task status and the crawled data are
  still those of the completed task. And a completed task is not final: when the interval
  has fired twice, the first status fetch settles \<open>completed\<close> and clears the interval,
  and the second, still in flight, then settles \<open>failed\<close> and sets the status and the
  error message, with no start call.
\<close>

theorem start_keeps_previous_task_fields:
  "loading (run restart_after_A init)
   \<and> last (sent (run restart_after_A init))
       = (ByStartCrawl, PostStartCrawl (js ''https://other.com''))
   \<and> taskId (run restart_after_A init) = JStr ''t1''
   \<and> taskStatus (run restart_after_A init) = JStr ''completed''
   \<and> crawledData (run restart_after_A init) = example_result
   \<and> taskId (run scenario_A init) = JStr ''t1''
   \<and> taskStatus (run scenario_A init) = JStr ''completed''
   \<and> crawledData (run scenario_A init) = example_result
   \<and> taskStatus (run [Tick 0, Settle 1 completed_result] polling_t1) = JStr ''completed''
   \<and> \<not> loading (run [Tick 0, Settle 1 completed_result] polling_t1)
   \<and> timers (run [Tick 0, Settle 1 completed_result] polling_t1) = []
   \<and> taskStatus (run [Tick 0, Settle 1 completed_result, Settle 2 failed_result] polling_t1)
       = JStr ''failed''
   \<and> errorMessage (run [Tick 0, Settle 1 completed_result, Settle 2 failed_result] polling_t1)
       = ''Task failed.''"
  by (simp only: restart_after_A_eval scenario_A_eval polling_t1_eval)
     (simp add: completed_result_def failed_result_def app_eval ok_json_def)

text \<open>
  C3, amended. A start call on an accepted input sets loading, clears the error message,
  marks the URL valid and makes the submit request, and changes nothing else; no click,
  key press or edit changes the task id, the task status or the crawled data. A submit
  that succeeds replaces the task id and registers the interval, and changes nothing
  else; the task id changes only when a pending submit settles, the task status and the
  crawled data only when a pending status fetch settles. A status fetch that reports
  \<open>completed\<close> or \<open>failed\<close> clears its interval and the loading flag, stores the status
  (and the data or the message \<open>Task failed.\<close>) and makes no request; with no interval
  registered and no call pending, no interval firing and no call settling changes the
  state.
\<close>

theorem start_resets_flags_only:
  "(validateUrl (startUrl s) \<longrightarrow>
      startCrawl s =
        s\<lparr> loading := True, isUrlValid := True, errorMessage := [],
           pending := pending s @ [(length (sent s), AwaitSubmit)],
           sent := sent s @ [(ByStartCrawl, PostStartCrawl (startUrl s))] \<rparr>)
   \<and> (\<forall>ev \<in> {Click, KeyPress key, Change v}.
        taskId (step ev s) = taskId s \<and> taskStatus (step ev s) = taskStatus s
        \<and> crawledData (step ev s) = crawledData s)
   \<and> (map_of (pending s) r = Some AwaitSubmit \<and> startCrawlService out = Inr data
        \<and> get_prop data ''task_id'' = Inr tid \<longrightarrow>
      step (Settle r out) s =
        s\<lparr> pending := filter (\<lambda>p. fst p \<noteq> r) (pending s), taskId := tid,
           timers := timers s @ [\<lparr> timer_id = next_timer_id s, delay_ms = 2000,
                                   task_arg = tid \<rparr>],
           next_timer_id := Suc (next_timer_id s) \<rparr>)
   \<and> (taskId (step ev s) \<noteq> taskId s \<longrightarrow>
        (\<exists>r' out'. ev = Settle r' out' \<and> map_of (pending s) r' = Some AwaitSubmit))
   \<and> (taskStatus (step ev s) \<noteq> taskStatus s \<or> crawledData (step ev s) \<noteq> crawledData s \<longrightarrow>
        (\<exists>r' out' i'. ev = Settle r' out' \<and> map_of (pending s) r' = Some (AwaitPoll i')))
   \<and> (map_of (pending s) r = Some (AwaitPoll i) \<and> checkTaskStatusService out = Inr data
        \<and> get_prop data ''status'' = Inr (JStr ''completed'')
        \<and> get_prop data ''crawled_data'' = Inr d \<longrightarrow>
      step (Settle r out) s =
        s\<lparr> pending := filter (\<lambda>p. fst p \<noteq> r) (pending s), taskStatus := JStr ''completed'',
           timers := filter (\<lambda>t. timer_id t \<noteq> i) (timers s), loading := False,
           crawledData := d \<rparr>)
   \<and> (map_of (pending s) r = Some (AwaitPoll i) \<and> checkTaskStatusService out = Inr data
        \<and> get_prop data ''status'' = Inr (JStr ''failed'') \<longrightarrow>
      step (Settle r out) s =
        s\<lparr> pending := filter (\<lambda>p. fst p \<noteq> r) (pending s), taskStatus := JStr ''failed'',
           timers := filter (\<lambda>t. timer_id t \<noteq> i) (timers s), loading := False,
           errorMessage := ''Task failed.'' \<rparr>)
   \<and> (timers s = [] \<and> pending s = [] \<and> list_all automatic evs \<longrightarrow> run evs s = s)"
proof -
  have b: "\<forall>ev \<in> {Click, KeyPress key, Change v}.
        taskId (step ev s) = taskId s \<and> taskStatus (step ev s) = taskStatus s
        \<and> crawledData (step ev s) = crawledData s"
    by (simp add: handleKeyPress_def handleUrlChange_def task_fields_startCrawl)
  have c: "\<exists>r' out' i'. ev = Settle r' out' \<and> map_of (pending s) r' = Some (AwaitPoll i')"
    if "taskStatus (step ev s) \<noteq> taskStatus s \<or> crawledData (step ev s) \<noteq> crawledData s"
    using that taskStatus_changes [of ev s] crawledData_changes [of ev s] by blast
  show ?thesis
    using b c startCrawl_accepted [of s] submit_success [of s r out data tid]
      taskId_changes [of ev s] poll_completed [of s r i out data d]
      poll_failed [of s r i out data] quiescent_run [of s evs]
    by blast
qed

lemma result_evals:
  "checkTaskStatusService in_progress_result = Inr (JObj [(''status'', JStr ''in_progress'')])"
  "checkTaskStatusService failed_result = Inr (JObj [(''status'', JStr ''failed'')])"
  "checkTaskStatusService completed_result
     = Inr (JObj [(''status'', JStr ''completed''), (''crawled_data'', example_result)])"
  "checkTaskStatusService (NetworkFailure ''Failed to fetch'') = Inl (TypeError ''Failed to fetch'')"
  "startCrawlService (ok_json (JObj [(''task_id'', JStr ''t1'')]))
     = Inr (JObj [(''task_id'', JStr ''t1'')])"
  by (simp_all add: in_progress_result_def failed_result_def completed_result_def
      checkTaskStatusService_def startCrawlService_def ok_json_def ok_def)

text \<open>The theorem at concrete states.\<close>

theorem one_poll_loop_when_starts_are_idle_witness:
  "starts_when_idle second_lifecycle init
   \<and> length (timers (run second_lifecycle init)) \<le> 1
   \<and> timers (startCrawl polling_t1) = timers polling_t1
   \<and> map_of (pending submit_pending) 0 = Some AwaitSubmit
   \<and> timers (step (Settle 0 (ok_json (JObj [(''task_id'', JStr ''t1'')]))) submit_pending)
       = [\<lparr> timer_id = 0, delay_ms = 2000, task_arg = JStr ''t1'' \<rparr>]
   \<and> find (\<lambda>t. timer_id t = 0) (timers polling_t1)
       = Some \<lparr> timer_id = 0, delay_ms = 2000, task_arg = JStr ''t1'' \<rparr>
   \<and> sent (step (Tick 0) polling_t1)
       = sent polling_t1 @ [(ByTimer 0, GetTaskStatus (JStr ''t1''))]
   \<and> map_of (pending (run superseded init)) 1 = Some (AwaitPoll 0)
   \<and> taskStatus (step (Settle 1 in_progress_result) (run superseded init)) = JStr ''in_progress''
   \<and> crawledData (step (Settle 1 completed_result) (run superseded init)) = example_result
   \<and> filter (\<lambda>t. timer_id t \<noteq> 0) (timers (step (Settle 1 completed_result) (run superseded init)))
       = [\<lparr> timer_id = 1, delay_ms = 2000, task_arg = JStr ''t4'' \<rparr>]"
proof -
  let ?p = "JObj [(''status'', JStr ''in_progress'')]"
  let ?c = "JObj [(''status'', JStr ''completed''), (''crawled_data'', example_result)]"
  let ?t = "JObj [(''task_id'', JStr ''t1'')]"
  let ?tm = "\<lparr> timer_id = 0, delay_ms = 2000, task_arg = JStr ''t1'' \<rparr>"
  have i: "starts_when_idle second_lifecycle init"
    by (simp add: second_lifecycle_def scenario_A_def is_start_def run_eval)
  have h0: "map_of (pending submit_pending) 0 = Some AwaitSubmit"
    by (simp add: submit_pending_eval)
  have h1: "map_of (pending (run superseded init)) 1 = Some (AwaitPoll 0)"
    by (simp add: superseded_eval)
  have h2: "find (\<lambda>t. timer_id t = 0) (timers polling_t1) = Some ?tm"
    by (simp add: polling_t1_eval)
  have g: "get_prop ?p ''status'' = Inr (JStr ''in_progress'')"
      "get_prop ?c ''status'' = Inr (JStr ''completed'')"
      "get_prop ?c ''crawled_data'' = Inr example_result"
      "get_prop ?t ''task_id'' = Inr (JStr ''t1'')"
    by simp_all
  note t1 = one_poll_loop_when_starts_are_idle [where evs = second_lifecycle and s = polling_t1
      and r = 0 and i = 0 and out = "NetworkFailure []" and data = JNull and st = JNull
      and tid = JNull and d = JNull and t = ?tm]
  note t2 = one_poll_loop_when_starts_are_idle [where evs = "[]" and s = submit_pending
      and r = 0 and i = 0 and out = "ok_json ?t" and data = ?t and st = JNull
      and tid = "JStr ''t1''" and d = JNull and t = ?tm]
  note t3 = one_poll_loop_when_starts_are_idle [where evs = "[]" and s = "run superseded init"
      and r = 1 and i = 0 and out = in_progress_result and data = ?p
      and st = "JStr ''in_progress''" and tid = JNull and d = JNull and t = ?tm]
  note t4 = one_poll_loop_when_starts_are_idle [where evs = "[]" and s = "run superseded init"
      and r = 1 and i = 0 and out = completed_result and data = ?c
      and st = "JStr ''completed''" and tid = JNull and d = example_result and t = ?tm]
  from t1 i have a: "length (timers (run second_lifecycle init)) \<le> 1"
      "timers (startCrawl polling_t1) = timers polling_t1"
    by (simp_all del: step.simps run.simps)
  from t1 h2 have "step (Tick 0) polling_t1 =
        polling_t1\<lparr> pending := pending polling_t1 @ [(length (sent polling_t1), AwaitPoll 0)],
           sent := sent polling_t1 @ [(ByTimer 0, GetTaskStatus (task_arg ?tm))] \<rparr>"
    by blast
  then have k: "sent (step (Tick 0) polling_t1)
       = sent polling_t1 @ [(ByTimer 0, GetTaskStatus (JStr ''t1''))]"
    by (simp del: step.simps)
  from t2 h0 g result_evals
  have "step (Settle 0 (ok_json ?t)) submit_pending =
        submit_pending\<lparr> pending := filter (\<lambda>p. fst p \<noteq> 0) (pending submit_pending),
           taskId := JStr ''t1'',
           timers := timers submit_pending @ [\<lparr> timer_id = next_timer_id submit_pending,
                                   delay_ms = 2000, task_arg = JStr ''t1'' \<rparr>],
           next_timer_id := Suc (next_timer_id submit_pending) \<rparr>"
    by (simp del: step.simps run.simps)
  then have b: "timers (step (Settle 0 (ok_json ?t)) submit_pending)
       = [\<lparr> timer_id = 0, delay_ms = 2000, task_arg = JStr ''t1'' \<rparr>]"
    by (simp add: submit_pending_eval del: step.simps)
  from t3 h1 g result_evals
  have c: "taskStatus (step (Settle 1 in_progress_result) (run superseded init))
      = JStr ''in_progress''"
    by (simp del: step.simps run.simps)
  from t4 h1 g result_evals
  have d: "crawledData (step (Settle 1 completed_result) (run superseded init)) = example_result"
    and "filter (\<lambda>t. timer_id t \<noteq> 0) (timers (step (Settle 1 completed_result) (run superseded init)))
        = filter (\<lambda>t. timer_id t \<noteq> 0) (timers (run superseded init))"
    by (simp_all del: step.simps run.simps)
  then have e: "filter (\<lambda>t. timer_id t \<noteq> 0)
        (timers (step (Settle 1 completed_result) (run superseded init)))
       = [\<lparr> timer_id = 1, delay_ms = 2000, task_arg = JStr ''t4'' \<rparr>]"
    by (simp add: superseded_eval del: step.simps)
  show ?thesis using i a h0 b h2 k h1 c d e by (simp del: step.simps run.simps)
qed

text \<open>The theorem at concrete states.\<close>

theorem start_resets_flags_only_witness:
  "validateUrl (startUrl (step (Change (js ''https://other.com'')) (run scenario_A init)))
   \<and> taskId (startCrawl (step (Change (js ''https://other.com'')) (run scenario_A init)))
       = JStr ''t1''
   \<and> taskStatus (startCrawl (step (Change (js ''https://other.com'')) (run scenario_A init)))
       = JStr ''completed''
   \<and> crawledData (startCrawl (step (Change (js ''https://other.com'')) (run scenario_A init)))
       = example_result
   \<and> loading (startCrawl (step (Change (js ''https://other.com'')) (run scenario_A init)))
   \<and> taskId (step Click (run scenario_A init)) = JStr ''t1''
   \<and> crawledData (step (KeyPress ''Enter'') (run scenario_A init)) = example_result
   \<and> map_of (pending (run restart_after_A init)) 4 = Some AwaitSubmit
   \<and> taskId (step (Settle 4 (ok_json (JObj [(''task_id'', JStr ''t5'')]))) (run restart_after_A init))
       = JStr ''t5''
   \<and> taskId (step (Settle 4 (ok_json (JObj [(''task_id'', JStr ''t5'')]))) (run restart_after_A init))
       \<noteq> taskId (run restart_after_A init)
   \<and> taskStatus (step (Settle 4 (ok_json (JObj [(''task_id'', JStr ''t5'')])))
                        (run restart_after_A init)) = JStr ''completed''
   \<and> crawledData (step (Settle 4 (ok_json (JObj [(''task_id'', JStr ''t5'')])))
                        (run restart_after_A init)) = example_result
   \<and> list_all automatic [Tick 0, Settle 3 (NetworkFailure ''Failed to fetch'')]
   \<and> run [Tick 0, Settle 3 (NetworkFailure ''Failed to fetch'')] (run scenario_A init)
       = run scenario_A init
   \<and> map_of (pending polling_t1) 1 = Some (AwaitPoll 0)
   \<and> timers (step (Settle 1 failed_result) polling_t1) = []
   \<and> \<not> loading (step (Settle 1 failed_result) polling_t1)
   \<and> taskStatus (step (Settle 1 failed_result) polling_t1) \<noteq> taskStatus polling_t1
   \<and> crawledData (step (Settle 1 completed_result) polling_t1) = example_result
   \<and> timers (step (Settle 1 completed_result) polling_t1) = []"
proof -
  let ?s = "step (Change (js ''https://other.com'')) (run scenario_A init)"
  let ?f = "JObj [(''status'', JStr ''failed'')]"
  let ?c = "JObj [(''status'', JStr ''completed''), (''crawled_data'', example_result)]"
  let ?t = "JObj [(''task_id'', JStr ''t5'')]"
  let ?auto = "[Tick 0, Settle 3 (NetworkFailure ''Failed to fetch'')]"
  let ?ra = "run restart_after_A init"
  have v: "validateUrl (startUrl ?s)"
    by (simp add: handleUrlChange_def valid_other)
  have f: "taskId ?s = JStr ''t1''" "taskStatus ?s = JStr ''completed''"
          "crawledData ?s = example_result"
    by (simp_all add: handleUrlChange_def scenario_A_eval)
  have q: "timers (run scenario_A init) = []" "pending (run scenario_A init) = []"
    by (simp_all add: scenario_A_eval)
  have au: "list_all automatic ?auto" by simp
  have h0: "map_of (pending ?ra) 4 = Some AwaitSubmit"
    by (simp add: restart_after_A_eval)
  have h1: "map_of (pending polling_t1) 1 = Some (AwaitPoll 0)"
    by (simp add: polling_t1_eval)
  have g: "get_prop ?f ''status'' = Inr (JStr ''failed'')"
      "get_prop ?t ''task_id'' = Inr (JStr ''t5'')"
      "get_prop ?c ''status'' = Inr (JStr ''completed'')"
      "get_prop ?c ''crawled_data'' = Inr example_result"
    by simp_all
  have sv: "startCrawlService (ok_json ?t) = Inr ?t"
    by (simp add: startCrawlService_def ok_json_def ok_def)
  note t1 = start_resets_flags_only [where s = ?s and key = "''Enter''" and v = "[]"
      and r = 0 and i = 0 and out = "NetworkFailure []" and data = JNull and d = JNull
      and tid = JNull and ev = Click and evs = "[]"]
  note t2 = start_resets_flags_only [where s = "run scenario_A init" and key = "''Enter''"
      and v = "[]" and r = 0 and i = 0 and out = "NetworkFailure []" and data = JNull
      and d = JNull and tid = JNull and ev = Click and evs = ?auto]
  note t3 = start_resets_flags_only [where s = polling_t1 and key = "''Enter''"
      and v = "[]" and r = 1 and i = 0 and out = failed_result and data = ?f
      and d = JNull and tid = JNull and ev = "Settle 1 failed_result" and evs = "[]"]
  note t4 = start_resets_flags_only [where s = ?ra and key = "''Enter''"
      and v = "[]" and r = 4 and i = 0 and out = "ok_json ?t" and data = ?t
      and d = JNull and tid = "JStr ''t5''" and ev = "Settle 4 (ok_json ?t)" and evs = "[]"]
  note t5 = start_resets_flags_only [where s = polling_t1 and key = "''Enter''"
      and v = "[]" and r = 1 and i = 0 and out = completed_result and data = ?c
      and d = example_result and tid = JNull and ev = Click and evs = "[]"]
  from t1 v have "startCrawl ?s =
        ?s\<lparr> loading := True, isUrlValid := True, errorMessage := [],
           pending := pending ?s @ [(length (sent ?s), AwaitSubmit)],
           sent := sent ?s @ [(ByStartCrawl, PostStartCrawl (startUrl ?s))] \<rparr>"
    by (simp del: step.simps run.simps)
  then have a: "taskId (startCrawl ?s) = JStr ''t1''"
      "taskStatus (startCrawl ?s) = JStr ''completed''"
      "crawledData (startCrawl ?s) = example_result" "loading (startCrawl ?s)"
    using f by (simp_all del: step.simps run.simps)
  from t2 have "taskId (step Click (run scenario_A init)) = taskId (run scenario_A init)"
      "crawledData (step (KeyPress ''Enter'') (run scenario_A init))
         = crawledData (run scenario_A init)"
    by (simp_all del: step.simps run.simps)
  then have u: "taskId (step Click (run scenario_A init)) = JStr ''t1''"
      "crawledData (step (KeyPress ''Enter'') (run scenario_A init)) = example_result"
    by (simp_all add: scenario_A_eval del: step.simps)
  from t2 q au have b: "run ?auto (run scenario_A init) = run scenario_A init"
    by (simp del: step.simps run.simps)
  from t3 h1 g result_evals
  have "step (Settle 1 failed_result) polling_t1 =
        polling_t1\<lparr> pending := filter (\<lambda>p. fst p \<noteq> 1) (pending polling_t1),
           taskStatus := JStr ''failed'',
           timers := filter (\<lambda>t. timer_id t \<noteq> 0) (timers polling_t1), loading := False,
           errorMessage := ''Task failed.'' \<rparr>"
    by (simp del: step.simps run.simps)
  then have c: "timers (step (Settle 1 failed_result) polling_t1) = []"
      "\<not> loading (step (Settle 1 failed_result) polling_t1)"
      "taskStatus (step (Settle 1 failed_result) polling_t1) \<noteq> taskStatus polling_t1"
    by (simp_all add: polling_t1_eval del: step.simps)
  from t3 c(3) have "\<exists>r' out' i'. Settle 1 failed_result = Settle r' out'
      \<and> map_of (pending polling_t1) r' = Some (AwaitPoll i')"
    by blast
  from t5 h1 g result_evals
  have "step (Settle 1 completed_result) polling_t1 =
        polling_t1\<lparr> pending := filter (\<lambda>p. fst p \<noteq> 1) (pending polling_t1),
           taskStatus := JStr ''completed'',
           timers := filter (\<lambda>t. timer_id t \<noteq> 0) (timers polling_t1), loading := False,
           crawledData := example_result \<rparr>"
    by (simp del: step.simps run.simps)
  then have w: "crawledData (step (Settle 1 completed_result) polling_t1) = example_result"
      "timers (step (Settle 1 completed_result) polling_t1) = []"
    by (simp_all add: polling_t1_eval del: step.simps)
  from t4 h0 g sv
  have "step (Settle 4 (ok_json ?t)) ?ra =
        ?ra\<lparr> pending := filter (\<lambda>p. fst p \<noteq> 4) (pending ?ra),
           taskId := JStr ''t5'',
           timers := timers ?ra @ [\<lparr> timer_id = next_timer_id ?ra,
                                   delay_ms = 2000, task_arg = JStr ''t5'' \<rparr>],
           next_timer_id := Suc (next_timer_id ?ra) \<rparr>"
    by (simp del: step.simps run.simps)
  then have d: "taskId (step (Settle 4 (ok_json ?t)) ?ra) = JStr ''t5''"
      "taskId (step (Settle 4 (ok_json ?t)) ?ra) \<noteq> taskId ?ra"
      "taskStatus (step (Settle 4 (ok_json ?t)) ?ra) = JStr ''completed''"
      "crawledData (step (Settle 4 (ok_json ?t)) ?ra) = example_result"
    by (simp_all add: restart_after_A_eval del: step.simps)
  from t4 d(2) have "\<exists>r' out'. Settle 4 (ok_json ?t) = Settle r' out'
      \<and> map_of (pending ?ra) r' = Some AwaitSubmit"
    by blast
  show ?thesis using v a u h0 d au b h1 c w by (simp del: step.simps run.simps)
qed


end
